theory Spec2Isabelle
  imports Complex_Main "HOL-Library.Product_Lexorder" "HOL-Library.Multiset"
begin

section \<open>The Schelling model of lectures/abm/abm-1.ipynb\<close>

text \<open>
  The notebook defines two classes, \<^verbatim>\<open>SchellingAgent\<close> and \<^verbatim>\<open>SchellingModel\<close>, on top of
  the Mesa library (\<^verbatim>\<open>Agent\<close>, \<^verbatim>\<open>Model\<close>, \<^verbatim>\<open>SingleGrid\<close>, \<^verbatim>\<open>RandomActivation\<close>). The two
  classes are translated from the notebook. The library methods they call are not part of
  the repository; they are translated from the Mesa release the notebook was written
  against (0.8.x) and are marked as library code below.

  Python objects are shared by reference: one agent object is held by the scheduler's
  dictionary and by a grid cell at the same time. The attributes \<^verbatim>\<open>unique_id\<close>, \<^verbatim>\<open>type\<close>
  and \<^verbatim>\<open>homophily\<close> of an agent are assigned once, in the constructor, so an agent object
  is the record of these three. Its only mutable attribute, \<^verbatim>\<open>pos\<close>, lives in the model
  state as a map from the identity of the agent to its position, so that the scheduler and
  the grid see one position per agent.
\<close>

subsection \<open>Values\<close>

type_synonym coord = "int \<times> int"

text \<open>
  The result of \<^verbatim>\<open>np.mean\<close> is a double: either not-a-number or a number. A number is
  the rational that the double denotes. Every comparison with not-a-number is false; a
  comparison of two numbers compares the rationals (the thresholds \<^verbatim>\<open>homophily\<close> and
  \<^verbatim>\<open>density\<close> are Python numbers, the rationals they denote: the literal \<^verbatim>\<open>0.2\<close> is
  \<open>3602879701896397 / 2\<^sup>5\<^sup>4\<close>, not \<open>1 / 5\<close>).
\<close>

datatype np_float = NaN | Fin rat

fun float_less :: "np_float \<Rightarrow> rat \<Rightarrow> bool" where
  "float_less NaN h = False"
| "float_less (Fin q) h = (q < h)"

text \<open>
  The division of two doubles rounds the quotient to the nearest double, a tie to the
  double with an even significand. For counts \<open>0 \<le> k \<le> n\<close>, \<open>0 < n\<close>: with \<open>s\<close> the least
  number such that \<open>n \<le> 2\<^sup>s k\<close>, the quotient scaled by \<open>2\<^sup>s\<^sup>+\<^sup>5\<^sup>2\<close> lies between \<open>2\<^sup>5\<^sup>2\<close> and
  \<open>2\<^sup>5\<^sup>3\<close>, is rounded to an integer (the significand of 53 bits), and is scaled back.
\<close>

function shift :: "nat \<Rightarrow> nat \<Rightarrow> nat" where
  "shift k n = (if k = 0 \<or> n \<le> k then 0 else Suc (shift (2 * k) n))"
  by pat_completeness auto
termination
  by (relation "measure (\<lambda>(k, n). n - k)") auto

declare shift.simps [simp del]

definition round_half_even :: "int \<Rightarrow> int \<Rightarrow> int" where
  "round_half_even a n =
     (let q = a div n; r = a mod n in
      if 2 * r < n then q
      else if n < 2 * r then q + 1
      else if even q then q else q + 1)"

definition float_quotient :: "nat \<Rightarrow> nat \<Rightarrow> rat" where
  "float_quotient k n =
     (let t = shift k n + 52 in of_int (round_half_even (int k * 2 ^ t) (int n)) / 2 ^ t)"

text \<open>
  \<^verbatim>\<open>np.mean\<close> of a list of booleans: the sum of the list as a double (the number of
  \<^verbatim>\<open>True\<close>, exact below \<open>2\<^sup>5\<^sup>3\<close> elements; a neighbourhood has at most eight) divided by the
  length of the list. The mean of the empty list is \<^verbatim>\<open>nan\<close>.
\<close>

definition np_mean :: "bool list \<Rightarrow> np_float" where
  "np_mean bs =
     (if bs = [] then NaN
      else Fin (float_quotient (length (filter (\<lambda>b. b) bs)) (length bs)))"

datatype error = NoEmptyCells | GridFull | CellNotEmpty | DuplicateAgent | IndexError

record agent =
  unique_id :: coord
  agent_type :: string
  homophily :: rat

text \<open>
  The model state. \<^verbatim>\<open>width\<close>, \<^verbatim>\<open>height\<close>, \<^verbatim>\<open>torus\<close>, \<^verbatim>\<open>grid\<close> and \<^verbatim>\<open>empties\<close> are the
  attributes of the \<^verbatim>\<open>SingleGrid\<close> object \<^verbatim>\<open>self.grid\<close>; \<^verbatim>\<open>agents\<close> (the ordered
  dictionary \<^verbatim>\<open>_agents\<close>, as its list of items) and \<^verbatim>\<open>steps\<close> are those of the
  \<^verbatim>\<open>RandomActivation\<close> object \<^verbatim>\<open>self.schedule\<close>; \<^verbatim>\<open>agent_pos\<close> is the attribute \<^verbatim>\<open>pos\<close> of
  every agent object, by \<^verbatim>\<open>unique_id\<close>; \<^verbatim>\<open>moved\<close> is \<^verbatim>\<open>self.moved\<close>.

  The random generators are inputs: \<^verbatim>\<open>random_draws\<close> are the numbers that \<^verbatim>\<open>self.random\<close> will
  produce, \<^verbatim>\<open>np_draws\<close> those of numpy's global generator. A finite list stands for the
  stream that goes on with zeros.
\<close>

record model =
  width :: int
  height :: int
  torus :: bool
  grid :: "coord \<Rightarrow> agent option"
  empties :: "coord set"
  agents :: "(coord \<times> agent) list"
  steps :: nat
  agent_pos :: "coord \<Rightarrow> coord"
  moved :: nat
  random_draws :: "nat list"
  np_draws :: "nat list"

text \<open>An operation either returns the new state or raises, leaving the state it reached.\<close>

type_synonym result = "(error \<times> model) + model"

subsection \<open>Random sources (Python's \<^verbatim>\<open>random.Random\<close>, numpy's global generator)\<close>

definition next_draw :: "nat list \<Rightarrow> nat \<times> nat list" where
  "next_draw ds = (case ds of [] \<Rightarrow> (0, []) | d # ds' \<Rightarrow> (d, ds'))"

text \<open>\<^verbatim>\<open>self.random.random()\<close>: a multiple of \<open>2\<^sup>-\<^sup>5\<^sup>3\<close> in \<open>[0, 1)\<close>.\<close>

definition random_random :: "model \<Rightarrow> rat \<times> model" where
  "random_random m =
     (case next_draw (random_draws m) of
        (d, ds) \<Rightarrow> (of_nat (d mod 2 ^ 53) / 2 ^ 53, m\<lparr>random_draws := ds\<rparr>))"

text \<open>\<^verbatim>\<open>_randbelow(n)\<close>, for \<open>n > 0\<close>: some number below \<open>n\<close>.\<close>

definition randbelow :: "nat \<Rightarrow> model \<Rightarrow> nat \<times> model" where
  "randbelow n m =
     (case next_draw (random_draws m) of (d, ds) \<Rightarrow> (d mod n, m\<lparr>random_draws := ds\<rparr>))"

text \<open>\<^verbatim>\<open>random.choice(seq)\<close>: raises \<^verbatim>\<open>IndexError\<close> on an empty sequence.\<close>

definition random_choice :: "model \<Rightarrow> 'a list \<Rightarrow> (error \<times> model) + ('a \<times> model)" where
  "random_choice m xs =
     (if xs = [] then Inl (IndexError, m)
      else case randbelow (length xs) m of (i, m') \<Rightarrow> Inr (xs ! i, m'))"

text \<open>
  \<^verbatim>\<open>random.shuffle(x)\<close>:
  \<^verbatim>\<open>for i in reversed(range(1, len(x))): j = randbelow(i + 1); x[i], x[j] = x[j], x[i]\<close>.
\<close>

fun shuffle_loop :: "nat \<Rightarrow> 'a list \<Rightarrow> model \<Rightarrow> 'a list \<times> model" where
  "shuffle_loop 0 xs m = (xs, m)"
| "shuffle_loop (Suc i) xs m =
     (case randbelow (Suc i + 1) m of
        (j, m') \<Rightarrow> shuffle_loop i (xs[Suc i := xs ! j, j := xs ! Suc i]) m')"

definition shuffle :: "'a list \<Rightarrow> model \<Rightarrow> 'a list \<times> model" where
  "shuffle xs m = shuffle_loop (length xs - 1) xs m"

text \<open>\<^verbatim>\<open>np.random.choice(a)\<close> on a non-empty list \<open>a\<close>.\<close>

definition np_random_choice :: "model \<Rightarrow> 'a list \<Rightarrow> 'a \<times> model" where
  "np_random_choice m xs =
     (case next_draw (np_draws m) of
        (d, ds) \<Rightarrow> (xs ! (d mod length xs), m\<lparr>np_draws := ds\<rparr>))"

subsection \<open>The grid (Mesa's \<^verbatim>\<open>Grid\<close> and \<^verbatim>\<open>SingleGrid\<close>, library code)\<close>

definition out_of_bounds :: "model \<Rightarrow> coord \<Rightarrow> bool" where
  "out_of_bounds m p =
     (case p of (x, y) \<Rightarrow> x < 0 \<or> x \<ge> width m \<or> y < 0 \<or> y \<ge> height m)"

text \<open>
  \<^verbatim>\<open>torus_adj\<close> raises for a point out of bounds in a space that is not a torus; \<open>None\<close>
  stands for the exception.
\<close>

definition torus_adj :: "model \<Rightarrow> coord \<Rightarrow> coord option" where
  "torus_adj m p =
     (if \<not> out_of_bounds m p then Some p
      else if \<not> torus m then None
      else Some (fst p mod width m, snd p mod height m))"

text \<open>
  \<^verbatim>\<open>coord_iter\<close> yields the cells in the order \<^verbatim>\<open>for row in range(width): for col in
  range(height)\<close>; the caller reads the two coordinates only.
\<close>

definition coord_iter :: "model \<Rightarrow> coord list" where
  "coord_iter m = concat (map (\<lambda>x. map (\<lambda>y. (x, y)) [0..height m - 1]) [0..width m - 1])"

text \<open>
  \<^verbatim>\<open>iter_neighborhood(pos, moore=True, include_center=False, radius=1)\<close>. The offsets are
  those of \<^verbatim>\<open>for dy in range(-1, 2): for dx in range(-1, 2)\<close>; \<open>neighbor_coord\<close> is the body
  of the loop up to the coordinate it would yield, and \<open>neighborhood_loop\<close> keeps the
  coordinates that were not yielded before, in the order of the loop. The call of
  \<^verbatim>\<open>torus_adj\<close> in the body does not raise: on a grid that is no torus the test before it
  has skipped every position out of bounds (lemma \<open>torus_adj_in_loop\<close>).
\<close>

definition offsets :: "(int \<times> int) list" where
  "offsets = concat (map (\<lambda>dy. map (\<lambda>dx. (dx, dy)) [-1, 0, 1]) [-1, 0, 1])"

definition neighbor_coord :: "model \<Rightarrow> coord \<Rightarrow> int \<times> int \<Rightarrow> coord option" where
  "neighbor_coord m p d =
     (let x = fst p; y = snd p; dx = fst d; dy = snd d in
      if dx = 0 \<and> dy = 0 then None
      else if \<not> torus m \<and>
              (\<not> (0 \<le> dx + x \<and> dx + x < width m) \<or> \<not> (0 \<le> dy + y \<and> dy + y < height m))
      then None
      else (case torus_adj m (x + dx, y + dy) of
              None \<Rightarrow> None
            | Some q \<Rightarrow> if out_of_bounds m q then None else Some q))"

fun neighborhood_loop :: "model \<Rightarrow> coord \<Rightarrow> (int \<times> int) list \<Rightarrow> coord list \<Rightarrow> coord list" where
  "neighborhood_loop m p [] coordinates = coordinates"
| "neighborhood_loop m p (d # ds) coordinates =
     (case neighbor_coord m p d of
        None \<Rightarrow> neighborhood_loop m p ds coordinates
      | Some q \<Rightarrow>
          if q \<in> set coordinates then neighborhood_loop m p ds coordinates
          else neighborhood_loop m p ds (coordinates @ [q]))"

definition iter_neighborhood :: "model \<Rightarrow> coord \<Rightarrow> coord list" where
  "iter_neighborhood m p = neighborhood_loop m p offsets []"

definition is_cell_empty :: "model \<Rightarrow> coord \<Rightarrow> bool" where
  "is_cell_empty m p = (grid m p = None)"

text \<open>\<^verbatim>\<open>iter_cell_list_contents\<close>: the contents of the cells of the list that are not empty.\<close>

definition iter_cell_list_contents :: "model \<Rightarrow> coord list \<Rightarrow> agent list" where
  "iter_cell_list_contents m cell_list =
     map (\<lambda>c. the (grid m c)) (filter (\<lambda>c. \<not> is_cell_empty m c) cell_list)"

definition neighbor_iter :: "model \<Rightarrow> coord \<Rightarrow> agent list" where
  "neighbor_iter m p = iter_cell_list_contents m (iter_neighborhood m p)"

text \<open>
  \<^verbatim>\<open>SingleGrid._place_agent\<close> refuses an occupied cell, then \<^verbatim>\<open>Grid._place_agent\<close> stores the
  agent and discards the position from \<^verbatim>\<open>empties\<close>. \<^verbatim>\<open>Grid._remove_agent\<close> clears the cell
  and adds the position to \<^verbatim>\<open>empties\<close>.
\<close>

definition place_agent_cell :: "model \<Rightarrow> coord \<Rightarrow> agent \<Rightarrow> result" where
  "place_agent_cell m p a =
     (if is_cell_empty m p
      then Inr (m\<lparr>grid := (grid m)(p := Some a), empties := empties m - {p}\<rparr>)
      else Inl (CellNotEmpty, m))"

definition remove_agent_cell :: "model \<Rightarrow> coord \<Rightarrow> model" where
  "remove_agent_cell m p = m\<lparr>grid := (grid m)(p := None), empties := insert p (empties m)\<rparr>"

text \<open>
  \<^verbatim>\<open>move_to_empty(agent)\<close>: raises when \<^verbatim>\<open>len(self.empties) == 0\<close>; otherwise chooses among
  \<^verbatim>\<open>sorted(self.empties)\<close>, places the agent there, sets its \<^verbatim>\<open>pos\<close> and clears the cell it
  came from.
\<close>

definition move_to_empty :: "model \<Rightarrow> agent \<Rightarrow> result" where
  "move_to_empty m a =
     (let p = agent_pos m (unique_id a) in
      if card (empties m) = 0 then Inl (NoEmptyCells, m)
      else case random_choice m (sorted_list_of_set (empties m)) of
             Inl e \<Rightarrow> Inl e
           | Inr (new_pos, m1) \<Rightarrow>
               (case place_agent_cell m1 new_pos a of
                  Inl e \<Rightarrow> Inl e
                | Inr m2 \<Rightarrow>
                    Inr (remove_agent_cell
                          (m2\<lparr>agent_pos := (agent_pos m2)(unique_id a := new_pos)\<rparr>) p)))"

text \<open>
  Python's index into a list of \<open>n\<close> elements: an index from \<open>-n\<close> up to \<open>-1\<close> counts from
  the end, an index outside \<open>-n, \<dots>, n - 1\<close> raises \<^verbatim>\<open>IndexError\<close>.
\<close>

definition list_index :: "int \<Rightarrow> int \<Rightarrow> int option" where
  "list_index n i =
     (if 0 \<le> i \<and> i < n then Some i
      else if - n \<le> i \<and> i < 0 then Some (i + n)
      else None)"

text \<open>
  \<^verbatim>\<open>SingleGrid.position_agent(agent, x="random", y="random")\<close>. An argument is the string
  \<^verbatim>\<open>"random"\<close>, a number or, as the notebook passes it, a pair. The calls covered are those
  with two numbers, and those that leave \<^verbatim>\<open>y\<close> at its default, whatever \<^verbatim>\<open>x\<close> is.

  With \<^verbatim>\<open>y\<close> at its default the test \<^verbatim>\<open>x == "random" or y == "random"\<close> holds and the
  cell is drawn among the empty ones. With two numbers the agent is put at
  \<^verbatim>\<open>self.grid[x][y]\<close>: \<^verbatim>\<open>agent.pos\<close> is assigned first, the two list indices are Python's,
  and \<^verbatim>\<open>self.empties.discard\<close> is given the pair as it was passed.
\<close>

datatype pos_arg = RandomStr | Num int | Pair coord

datatype pos_args = Coords int int | Default_y pos_arg

definition position_agent :: "model \<Rightarrow> agent \<Rightarrow> pos_args \<Rightarrow> result" where
  "position_agent m a args =
     (case args of
        Default_y x \<Rightarrow>
          if card (empties m) = 0 then Inl (GridFull, m)
          else (case random_choice m (sorted_list_of_set (empties m)) of
                  Inl e \<Rightarrow> Inl e
                | Inr (coords, m1) \<Rightarrow>
                    place_agent_cell
                      (m1\<lparr>agent_pos := (agent_pos m1)(unique_id a := coords)\<rparr>) coords a)
      | Coords i j \<Rightarrow>
          (let m1 = m\<lparr>agent_pos := (agent_pos m)(unique_id a := (i, j))\<rparr> in
           case list_index (width m) i of
             None \<Rightarrow> Inl (IndexError, m1)
           | Some x \<Rightarrow>
               (case list_index (height m) j of
                  None \<Rightarrow> Inl (IndexError, m1)
                | Some y \<Rightarrow>
                    if grid m1 (x, y) = None
                    then Inr (m1\<lparr>grid := (grid m1)((x, y) := Some a),
                                 empties := empties m1 - {(i, j)}\<rparr>)
                    else Inl (CellNotEmpty, m1))))"

subsection \<open>The scheduler (Mesa's \<^verbatim>\<open>RandomActivation\<close>, library code)\<close>

text \<open>\<^verbatim>\<open>add\<close> refuses an agent whose \<^verbatim>\<open>unique_id\<close> is a key of \<^verbatim>\<open>_agents\<close> already.\<close>

definition schedule_add :: "model \<Rightarrow> agent \<Rightarrow> result" where
  "schedule_add m a =
     (if unique_id a \<in> set (map fst (agents m)) then Inl (DuplicateAgent, m)
      else Inr (m\<lparr>agents := agents m @ [(unique_id a, a)]\<rparr>))"

subsection \<open>\<^verbatim>\<open>SchellingAgent\<close> (notebook)\<close>

text \<open>
  \<^verbatim>\<open>SchellingAgent.__init__(pos, agent_type, homophily, model)\<close>: \<^verbatim>\<open>unique_id\<close> and \<^verbatim>\<open>pos\<close>
  are both the argument \<^verbatim>\<open>pos\<close>.
\<close>

definition SchellingAgent :: "model \<Rightarrow> coord \<Rightarrow> string \<Rightarrow> rat \<Rightarrow> agent \<times> model" where
  "SchellingAgent m p t h =
     (\<lparr>unique_id = p, agent_type = t, homophily = h\<rparr>, m\<lparr>agent_pos := (agent_pos m)(p := p)\<rparr>)"

text \<open>The fraction that \<^verbatim>\<open>step\<close> computes first.\<close>

definition pct_similar_neighbors :: "model \<Rightarrow> agent \<Rightarrow> np_float" where
  "pct_similar_neighbors m a =
     np_mean (map (\<lambda>other. agent_type a = agent_type other)
                  (neighbor_iter m (agent_pos m (unique_id a))))"

definition agent_step :: "model \<Rightarrow> agent \<Rightarrow> result" where
  "agent_step m a =
     (if float_less (pct_similar_neighbors m a) (homophily a) then
        case move_to_empty m a of
          Inl e \<Rightarrow> Inl e
        | Inr m' \<Rightarrow> Inr (m'\<lparr>moved := moved m' + 1\<rparr>)
      else Inr m)"

subsection \<open>The scheduler's step\<close>

text \<open>
  \<^verbatim>\<open>agent_buffer(shuffled=True)\<close> shuffles the list of keys and yields the agent of every key
  that is still a key of \<^verbatim>\<open>_agents\<close>; \<^verbatim>\<open>RandomActivation.step\<close> calls \<^verbatim>\<open>step\<close> on each agent
  it yields and then counts the step (the attribute \<^verbatim>\<open>time\<close>, incremented together with
  \<^verbatim>\<open>steps\<close>, is left out). An exception of an agent's \<^verbatim>\<open>step\<close> is not caught.
\<close>

fun run_agents :: "coord list \<Rightarrow> model \<Rightarrow> result" where
  "run_agents [] m = Inr m"
| "run_agents (k # ks) m =
     (case map_of (agents m) k of
        None \<Rightarrow> run_agents ks m
      | Some a \<Rightarrow>
          (case agent_step m a of
             Inl e \<Rightarrow> Inl e
           | Inr m' \<Rightarrow> run_agents ks m'))"

definition schedule_step :: "model \<Rightarrow> result" where
  "schedule_step m =
     (case shuffle (map fst (agents m)) m of
        (agent_keys, m1) \<Rightarrow>
          (case run_agents agent_keys m1 of
             Inl e \<Rightarrow> Inl e
           | Inr m2 \<Rightarrow> Inr (m2\<lparr>steps := steps m2 + 1\<rparr>)))"

subsection \<open>\<^verbatim>\<open>SchellingModel\<close> (notebook)\<close>

text \<open>
  The body of the loop of \<^verbatim>\<open>SchellingModel.__init__\<close> over \<^verbatim>\<open>self.grid.coord_iter()\<close>. The
  call \<^verbatim>\<open>self.grid.position_agent(agent, (x, y))\<close> binds the pair to the parameter \<^verbatim>\<open>x\<close> and
  leaves \<^verbatim>\<open>y\<close> at its default \<^verbatim>\<open>"random"\<close>.
\<close>

fun init_loop :: "rat \<Rightarrow> rat \<Rightarrow> coord list \<Rightarrow> model \<Rightarrow> result" where
  "init_loop density h [] m = Inr m"
| "init_loop density h (cell # cells) m =
     (case random_random m of
        (r, m1) \<Rightarrow>
          if r < density then
            case np_random_choice m1 [''triangle'', ''square''] of
              (t, m2) \<Rightarrow>
                (case SchellingAgent m2 cell t h of
                   (a, m3) \<Rightarrow>
                     (case schedule_add m3 a of
                        Inl e \<Rightarrow> Inl e
                      | Inr m4 \<Rightarrow>
                          (case position_agent m4 a (Default_y (Pair cell)) of
                             Inl e \<Rightarrow> Inl e
                           | Inr m5 \<Rightarrow> init_loop density h cells m5)))
          else init_loop density h cells m1)"

text \<open>
  \<^verbatim>\<open>SingleGrid(width, height, torus=True)\<close> with an empty scheduler. No agent object exists
  yet; \<open>agent_pos\<close> is set by the constructor of each agent. \<^verbatim>\<open>self.moved\<close> is assigned by
  \<^verbatim>\<open>SchellingModel.step\<close> before any agent is activated.
\<close>

definition new_model :: "int \<Rightarrow> int \<Rightarrow> nat list \<Rightarrow> nat list \<Rightarrow> model" where
  "new_model w h rd nd =
     \<lparr>width = w, height = h, torus = True, grid = (\<lambda>c. None),
      empties = set (concat (map (\<lambda>x. map (\<lambda>y. (x, y)) [0..h - 1]) [0..w - 1])),
      agents = [], steps = 0, agent_pos = (\<lambda>u. u), moved = 0,
      random_draws = rd, np_draws = nd\<rparr>"

text \<open>
  \<^verbatim>\<open>SchellingModel(width, height, density, homophily)\<close>; the last two arguments are the
  numbers the two random generators will produce. The constructor has no other parameter
  and checks none of its arguments. The numbers \<^verbatim>\<open>density\<close> and \<^verbatim>\<open>homophily\<close> are rationals.
\<close>

definition SchellingModel :: "int \<Rightarrow> int \<Rightarrow> rat \<Rightarrow> rat \<Rightarrow> nat list \<Rightarrow> nat list \<Rightarrow> result" where
  "SchellingModel w h density hom rd nd =
     (let m = new_model w h rd nd in init_loop density hom (coord_iter m) m)"

text \<open>\<^verbatim>\<open>SchellingModel.step\<close>; the line it prints is \<open>moved\<close> of the state it returns.\<close>

definition model_step :: "model \<Rightarrow> result" where
  "model_step m = schedule_step (m\<lparr>moved := 0\<rparr>)"

subsection \<open>Repeated steps\<close>

text \<open>
  \<open>n\<close> calls of \<^verbatim>\<open>SM.step()\<close> in a row, as in the last cell of the notebook; an exception
  ends the run.
\<close>

fun run_ticks :: "nat \<Rightarrow> model \<Rightarrow> result" where
  "run_ticks 0 m = Inr m"
| "run_ticks (Suc n) m =
     (case model_step m of
        Inl e \<Rightarrow> Inl e
      | Inr m' \<Rightarrow> run_ticks n m')"

section \<open>Specification\<close>

text \<open>
  The neighbourhood in the words of the specification: the cells adjacent to \<open>p\<close>
  horizontally, vertically and diagonally, taken modulo the dimensions on a torus and
  dropped when they fall outside the grid otherwise.
\<close>

definition moore_neighborhood :: "model \<Rightarrow> coord \<Rightarrow> coord set" where
  "moore_neighborhood m p =
     (let ds = ({-1, 0, 1} \<times> {-1, 0, 1}) - {(0, 0)} in
      if torus m
      then (\<lambda>d. ((fst p + fst d) mod width m, (snd p + snd d) mod height m)) ` ds
      else Set.filter (\<lambda>q. \<not> out_of_bounds m q) ((\<lambda>d. (fst p + fst d, snd p + snd d)) ` ds))"

definition occupied_neighbors :: "model \<Rightarrow> coord \<Rightarrow> coord set" where
  "occupied_neighbors m p = Set.filter (\<lambda>c. grid m c \<noteq> None) (moore_neighborhood m p)"

definition similar_neighbors :: "model \<Rightarrow> coord \<Rightarrow> string \<Rightarrow> coord set" where
  "similar_neighbors m p t =
     Set.filter (\<lambda>c. map_option agent_type (grid m c) = Some t) (moore_neighborhood m p)"

text \<open>
  The state of the grid is consistent: \<^verbatim>\<open>empties\<close> holds the cells of the grid that hold no
  agent; the agent of a cell is registered and has the cell as its position; a registered
  agent stands in the cell of its position; no key is registered twice.
\<close>

definition grid_inv :: "model \<Rightarrow> bool" where
  "grid_inv m \<longleftrightarrow>
     empties m = Set.filter (\<lambda>c. grid m c = None) (set (coord_iter m)) \<and>
     (\<forall>c \<in> set (coord_iter m).
        case grid m c of
          None \<Rightarrow> True
        | Some a \<Rightarrow> agent_pos m (unique_id a) = c \<and> map_of (agents m) (unique_id a) = Some a) \<and>
     (\<forall>ka \<in> set (agents m).
        unique_id (snd ka) = fst ka \<and> agent_pos m (fst ka) \<in> set (coord_iter m) \<and>
        grid m (agent_pos m (fst ka)) = Some (snd ka)) \<and>
     distinct (map fst (agents m))"

text \<open>The state after the agent \<open>a\<close> was taken from its cell and put into the cell \<open>n\<close>.\<close>

definition relocate :: "model \<Rightarrow> agent \<Rightarrow> coord \<Rightarrow> model" where
  "relocate m a n =
     m\<lparr>grid := (grid m)(n := Some a, agent_pos m (unique_id a) := None),
       empties := insert (agent_pos m (unique_id a)) (empties m - {n}),
       agent_pos := (agent_pos m)(unique_id a := n)\<rparr>"

text \<open>
  The agent registered under the key \<open>k\<close> is unhappy: its \<^verbatim>\<open>step\<close> takes the branch that
  calls \<^verbatim>\<open>move_to_empty\<close>.
\<close>

definition unhappy :: "model \<Rightarrow> coord \<Rightarrow> bool" where
  "unhappy m k =
     (case map_of (agents m) k of
        None \<Rightarrow> False
      | Some a \<Rightarrow> float_less (pct_similar_neighbors m a) (homophily a))"

text \<open>
  The keys of the agents whose \<^verbatim>\<open>step\<close> is called while the scheduler walks the buffer
  \<open>ks\<close> from the state \<open>m\<close>, in the order of the calls.
\<close>

fun activated :: "coord list \<Rightarrow> model \<Rightarrow> coord list" where
  "activated [] m = []"
| "activated (k # ks) m =
     (case map_of (agents m) k of
        None \<Rightarrow> activated ks m
      | Some a \<Rightarrow>
          k # (case agent_step m a of
                 Inl e \<Rightarrow> []
               | Inr m' \<Rightarrow> activated ks m'))"

text \<open>
  \<open>stepped_in_order ks m m'\<close>: from the state \<open>m\<close> the \<^verbatim>\<open>step\<close> of the agent registered under
  each key of \<open>ks\<close> is called, one call for each element of \<open>ks\<close> and in the order of \<open>ks\<close>,
  each call on the state that the call before it returned; no call raises, and the last one
  returns \<open>m'\<close>.
\<close>

inductive stepped_in_order :: "coord list \<Rightarrow> model \<Rightarrow> model \<Rightarrow> bool" where
  nobody: "stepped_in_order [] m m"
| next_agent:
    "map_of (agents m) k = Some a \<Longrightarrow> agent_step m a = Inr m1 \<Longrightarrow>
     stepped_in_order ks m1 m' \<Longrightarrow> stepped_in_order (k # ks) m m'"

code_pred (modes: i \<Rightarrow> i \<Rightarrow> o \<Rightarrow> bool) stepped_in_order .

text \<open>
  The states at the boundaries of the operations: the model a constructor call returns, the
  state after the first \<open>n\<close> iterations of the constructor's loop (after each placement),
  the state after a call of \<^verbatim>\<open>step\<close> of the model (returned or left behind by an
  exception), and the state after the first \<open>n\<close> activations of such a call (after each
  move).
\<close>

inductive reachable :: "model \<Rightarrow> bool" where
  constructed: "SchellingModel w h density hom rd nd = Inr m \<Longrightarrow> reachable m"
| placing:
    "init_loop density hom (take n (coord_iter (new_model w h rd nd))) (new_model w h rd nd) = Inr m
     \<Longrightarrow> reachable m"
| ticked: "reachable m \<Longrightarrow> model_step m = Inr m' \<Longrightarrow> reachable m'"
| tick_raised: "reachable m \<Longrightarrow> model_step m = Inl (e, m') \<Longrightarrow> reachable m'"
| activating:
    "reachable m \<Longrightarrow>
     run_agents (take n (fst (shuffle (map fst (agents m)) (m\<lparr>moved := 0\<rparr>))))
       (snd (shuffle (map fst (agents m)) (m\<lparr>moved := 0\<rparr>))) = Inr m'
     \<Longrightarrow> reachable m'"

text \<open>
  The cell that \<^verbatim>\<open>random.choice(sorted(self.empties))\<close> returns in the state \<open>m\<close>.
\<close>

definition chosen_empty :: "model \<Rightarrow> coord" where
  "chosen_empty m =
     sorted_list_of_set (empties m) !
       (fst (next_draw (random_draws m)) mod length (sorted_list_of_set (empties m)))"

text \<open>The state after the draw that \<^verbatim>\<open>move_to_empty\<close> consumes and the count of the move.\<close>

definition moved_agent :: "model \<Rightarrow> agent \<Rightarrow> model" where
  "moved_agent m a =
     (relocate m a (chosen_empty m))
       \<lparr>random_draws := snd (next_draw (random_draws m)), moved := moved m + 1\<rparr>"

text \<open>
  The state after a new agent \<open>a\<close> was registered and put into the cell \<open>n\<close>.
\<close>

definition placed :: "model \<Rightarrow> agent \<Rightarrow> coord \<Rightarrow> model" where
  "placed m a n =
     m\<lparr>grid := (grid m)(n := Some a), empties := empties m - {n},
       agents := agents m @ [(unique_id a, a)],
       agent_pos := (agent_pos m)(unique_id a := n)\<rparr>"


subsection \<open>Example states\<close>

definition example_agent :: "coord \<Rightarrow> string \<Rightarrow> agent" where
  "example_agent p t = \<lparr>unique_id = p, agent_type = t, homophily = 1 / 2\<rparr>"

text \<open>
  A grid of two by two cells that is full: a triangle at \<open>(0, 0)\<close> and three squares. It is
  the model that \<^verbatim>\<open>SchellingModel(2, 2, 1, 0.5)\<close> returns when the generators produce the
  numbers below.
\<close>

definition full_grid :: model where
  "full_grid =
     \<lparr>width = 2, height = 2, torus = True,
      grid = (\<lambda>c. None)
        ((0, 0) := Some (example_agent (0, 0) ''triangle''),
         (0, 1) := Some (example_agent (0, 1) ''square''),
         (1, 0) := Some (example_agent (1, 0) ''square''),
         (1, 1) := Some (example_agent (1, 1) ''square'')),
      empties = {},
      agents =
        [((0, 0), example_agent (0, 0) ''triangle''),
         ((0, 1), example_agent (0, 1) ''square''),
         ((1, 0), example_agent (1, 0) ''square''),
         ((1, 1), example_agent (1, 1) ''square'')],
      steps = 0, agent_pos = (\<lambda>u. u), moved = 0, random_draws = [], np_draws = []\<rparr>"

text \<open>
  A torus of four by four cells with ten agents and six empty cells. The triangle at
  \<open>(1, 1)\<close> has four neighbours, one of them a triangle; the square at \<open>(3, 3)\<close> has four
  neighbours, three of them squares.
\<close>

definition town_agents :: "(coord \<times> agent) list" where
  "town_agents =
     map (\<lambda>(p, t). (p, example_agent p t))
       [((1, 1), ''triangle''), ((0, 1), ''triangle''), ((1, 0), ''square''),
        ((1, 2), ''square''), ((2, 1), ''square''),
        ((3, 3), ''square''), ((2, 3), ''square''), ((3, 2), ''square''),
        ((0, 3), ''square''), ((3, 0), ''triangle'')]"

definition town :: model where
  "town =
     \<lparr>width = 4, height = 4, torus = True,
      grid = map_of town_agents,
      empties = {(0, 0), (0, 2), (2, 0), (2, 2), (1, 3), (3, 1)},
      agents = town_agents,
      steps = 0, agent_pos = (\<lambda>u. u), moved = 0, random_draws = [], np_draws = []\<rparr>"

text \<open>
  A torus of three by three cells with six agents whose threshold is the double \<^verbatim>\<open>0.2\<close>,
  which is \<open>3602879701896397 / 2\<^sup>5\<^sup>4\<close>, a little more than \<open>1/5\<close>. The triangle at \<open>(1, 1)\<close>
  has five neighbours, one of them a triangle.
\<close>

definition picky_agent :: "coord \<Rightarrow> string \<Rightarrow> agent" where
  "picky_agent p t =
     \<lparr>unique_id = p, agent_type = t, homophily = 3602879701896397 / 18014398509481984\<rparr>"

definition village_agents :: "(coord \<times> agent) list" where
  "village_agents =
     map (\<lambda>(p, t). (p, picky_agent p t))
       [((0, 0), ''triangle''), ((0, 1), ''square''), ((0, 2), ''square''),
        ((1, 0), ''square''), ((1, 1), ''triangle''), ((1, 2), ''square'')]"

definition village :: model where
  "village =
     \<lparr>width = 3, height = 3, torus = True,
      grid = map_of village_agents,
      empties = {(2, 0), (2, 1), (2, 2)},
      agents = village_agents,
      steps = 0, agent_pos = (\<lambda>u. u), moved = 0, random_draws = [], np_draws = []\<rparr>"

text \<open>A torus of three by three cells with a single agent.\<close>

definition lone :: model where
  "lone = placed (new_model 3 3 [] []) (example_agent (1, 1) ''triangle'') (1, 1)"


section \<open>Proofs\<close>

subsection \<open>The rounding of a quotient of counts\<close>

text \<open>
  The scaled quotient has a significand of 53 bits; the rounded quotient is within half a
  unit of the last place of the exact one, equal to it when the exact one is a double, and
  never negative.
\<close>

lemma shift_lower: "0 < k \<Longrightarrow> n \<le> 2 ^ shift k n * k"
proof (induction k n rule: shift.induct)
  case (1 k n)
  show ?case
  proof (cases "n \<le> k")
    case True
    then have "shift k n = 0" by (subst shift.simps) simp
    with True show ?thesis by simp
  next
    case False
    then have s: "shift k n = Suc (shift (2 * k) n)" using 1(2) by (subst shift.simps) simp
    from False 1(2) have "\<not> (k = 0 \<or> n \<le> k)" by simp
    from 1(1)[OF this] 1(2) have "n \<le> 2 ^ shift (2 * k) n * (2 * k)" by simp
    then show ?thesis by (simp add: s mult.assoc)
  qed
qed

lemma shift_upper: "0 < k \<Longrightarrow> k \<le> n \<Longrightarrow> 2 ^ shift k n * k < 2 * n"
proof (induction k n rule: shift.induct)
  case (1 k n)
  show ?case
  proof (cases "n \<le> k")
    case True
    then have "shift k n = 0" by (subst shift.simps) simp
    with True 1(2,3) show ?thesis by simp
  next
    case False
    then have s: "shift k n = Suc (shift (2 * k) n)" using 1(2) by (subst shift.simps) simp
    from False 1(2) have c: "\<not> (k = 0 \<or> n \<le> k)" by simp
    show ?thesis
    proof (cases "2 * k \<le> n")
      case True
      from 1(1)[OF c _ True] 1(2) have "2 ^ shift (2 * k) n * (2 * k) < 2 * n" by simp
      then show ?thesis by (simp add: s mult.assoc)
    next
      case f: False
      then have "shift (2 * k) n = 0" by (subst shift.simps) simp
      with False show ?thesis by (simp add: s)
    qed
  qed
qed

lemma significand_range:
  assumes "0 < k" "k \<le> n"
  shows "2 ^ 52 * n \<le> k * 2 ^ (shift k n + 52) \<and> k * 2 ^ (shift k n + 52) < 2 ^ 53 * n"
proof -
  from shift_lower[OF assms(1), of n] have "2 ^ 52 * n \<le> 2 ^ 52 * (2 ^ shift k n * k)"
    by (rule mult_left_mono) simp
  moreover from shift_upper[OF assms] have "2 ^ 52 * (2 ^ shift k n * k) < 2 ^ 52 * (2 * n)"
    by (rule mult_strict_left_mono) simp
  moreover have "k * 2 ^ (shift k n + 52) = 2 ^ 52 * (2 ^ shift k n * k)"
    by (simp only: power_add mult_ac)
  moreover have "(2::nat) ^ 53 * n = 2 ^ 52 * (2 * n)"
    by (simp only: power_Suc mult_ac eval_nat_numeral)
  ultimately show ?thesis by (simp only:)
qed

lemma round_half_even_error:
  assumes "0 < n"
  shows "\<bar>of_int (round_half_even a n) - (of_int a / of_int n :: rat)\<bar> \<le> 1 / 2"
proof -
  let ?q = "a div n" and ?r = "a mod n"
  have a: "(of_int a :: rat) = of_int ?q * of_int n + of_int ?r"
    by (metis div_mult_mod_eq of_int_add of_int_mult)
  from assms have n: "(0::rat) < of_int n" by simp
  have frac: "(of_int a / of_int n :: rat) = of_int ?q + of_int ?r / of_int n"
    using n by (simp add: a field_simps)
  have r: "0 \<le> ?r" "?r < n" using assms by simp_all
  then have r': "(0::rat) \<le> of_int ?r" "(of_int ?r :: rat) < of_int n" by simp_all
  consider (lo) "2 * ?r < n" | (hi) "n < 2 * ?r" | (tie) "2 * ?r = n" by linarith
  then show ?thesis
  proof cases
    case lo
    then have "of_int (2 * ?r) < (of_int n :: rat)" by (simp only: of_int_less_iff)
    then have "(of_int ?r :: rat) / of_int n \<le> 1 / 2" using n by (simp add: field_simps)
    moreover have "(0::rat) \<le> of_int ?r / of_int n" using r' n by simp
    ultimately show ?thesis using lo by (simp add: round_half_even_def Let_def frac)
  next
    case hi
    then have "(of_int n :: rat) < of_int (2 * ?r)" by (simp only: of_int_less_iff)
    then have h: "1 / 2 \<le> (of_int ?r :: rat) / of_int n" using n by (simp add: field_simps)
    from r' have "(of_int ?r :: rat) \<le> of_int n" by simp
    then have "(of_int ?r :: rat) / of_int n \<le> 1" using n by (simp only: divide_le_eq_1_pos)
    with h hi show ?thesis by (simp add: round_half_even_def Let_def frac)
  next
    case tie
    then have "(of_int n :: rat) = of_int (2 * ?r)" by simp
    with n have h: "(of_int ?r :: rat) / of_int n = 1 / 2" by (simp add: field_simps)
    have "round_half_even a n = ?q \<or> round_half_even a n = ?q + 1"
      by (simp add: round_half_even_def Let_def)
    then show ?thesis
    proof
      assume "round_half_even a n = ?q"
      then show ?thesis by (simp add: frac h)
    next
      assume "round_half_even a n = ?q + 1"
      then show ?thesis by (simp add: frac h)
    qed
  qed
qed

lemma float_quotient_error:
  assumes "0 < n"
  shows "\<bar>float_quotient k n - of_nat k / of_nat n\<bar> \<le> 1 / 2 ^ 53"
proof -
  let ?t = "shift k n + 52"
  let ?M = "round_half_even (int k * 2 ^ ?t) (int n)"
  from assms have n: "0 < int n" by simp
  have "\<bar>of_int ?M - (of_int (int k * 2 ^ ?t) / of_int (int n) :: rat)\<bar> \<le> 1 / 2"
    by (rule round_half_even_error[OF n])
  then have "\<bar>of_int ?M - (of_int (int k * 2 ^ ?t) / of_int (int n) :: rat)\<bar> / 2 ^ ?t \<le> (1 / 2) / 2 ^ ?t"
    by (rule divide_right_mono) simp
  moreover have "\<bar>of_int ?M - (of_int (int k * 2 ^ ?t) / of_int (int n) :: rat)\<bar> / 2 ^ ?t =
      \<bar>float_quotient k n - of_nat k / of_nat n\<bar>"
  proof -
    have "\<bar>of_int ?M - (of_int (int k * 2 ^ ?t) / of_int (int n) :: rat)\<bar> / 2 ^ ?t =
          \<bar>(of_int ?M - (of_int (int k * 2 ^ ?t) / of_int (int n) :: rat)) / 2 ^ ?t\<bar>"
      by (simp add: abs_divide)
    also have "(of_int ?M - (of_int (int k * 2 ^ ?t) / of_int (int n) :: rat)) / 2 ^ ?t =
          float_quotient k n - of_nat k / of_nat n"
      by (simp add: float_quotient_def Let_def diff_divide_distrib)
    finally show ?thesis .
  qed
  moreover have "(1 / 2 :: rat) / 2 ^ ?t \<le> 1 / 2 ^ 53"
  proof -
    have e: "(1 / 2 :: rat) / 2 ^ ?t = 1 / 2 ^ Suc ?t"
      by (simp only: power_Suc divide_divide_eq_left)
    have "(2::rat) ^ 53 \<le> 2 ^ Suc ?t" by (rule power_increasing) simp_all
    then have "1 / (2::rat) ^ Suc ?t \<le> 1 / 2 ^ 53" by (rule divide_left_mono) simp_all
    then show ?thesis unfolding e .
  qed
  ultimately show ?thesis by linarith
qed

lemma float_quotient_exact:
  assumes "0 < n" "int n dvd int k * 2 ^ (shift k n + 52)"
  shows "float_quotient k n = of_nat k / of_nat n"
proof -
  let ?t = "shift k n + 52"
  from assms(2) have m: "(int k * 2 ^ ?t) mod int n = 0" by simp
  with assms(1) have "round_half_even (int k * 2 ^ ?t) (int n) = (int k * 2 ^ ?t) div int n"
    by (simp add: round_half_even_def Let_def)
  moreover from assms(2) have "(of_int ((int k * 2 ^ ?t) div int n) :: rat) = of_int (int k * 2 ^ ?t) / of_int (int n)"
    by (rule of_int_div) 
  ultimately show ?thesis by (simp add: float_quotient_def Let_def)
qed

lemma round_half_even_nonneg: "0 \<le> a \<Longrightarrow> 0 \<le> n \<Longrightarrow> 0 \<le> round_half_even a n"
  by (simp add: round_half_even_def Let_def pos_imp_zdiv_nonneg_iff div_int_pos_iff)

lemma float_quotient_nonneg: "0 \<le> float_quotient k n"
  by (simp add: float_quotient_def Let_def round_half_even_nonneg)

subsection \<open>The neighbourhood\<close>

lemma neighborhood_loop_set:
  "set (neighborhood_loop m p ds acc) = set acc \<union> {q. \<exists>d \<in> set ds. neighbor_coord m p d = Some q}"
  by (induction ds arbitrary: acc) (auto split: option.splits)

lemma neighborhood_loop_distinct:
  "distinct acc \<Longrightarrow> distinct (neighborhood_loop m p ds acc)"
  by (induction ds arbitrary: acc) (auto split: option.splits)

lemma iter_neighborhood_distinct: "distinct (iter_neighborhood m p)"
  by (simp add: iter_neighborhood_def neighborhood_loop_distinct)

lemma iter_neighborhood_set:
  "set (iter_neighborhood m p) = {q. \<exists>d \<in> set offsets. neighbor_coord m p d = Some q}"
  by (simp add: iter_neighborhood_def neighborhood_loop_set)

lemma set_offsets: "set offsets = {-1, 0, 1} \<times> {-1, 0, 1}"
  unfolding offsets_def by (simp add: insert_commute)

lemma in_bounds_mod:
  "\<not> out_of_bounds m p \<Longrightarrow> (fst p mod width m, snd p mod height m) = p"
  by (cases p) (simp add: out_of_bounds_def)

lemma mod_in_bounds:
  "0 < width m \<Longrightarrow> 0 < height m \<Longrightarrow> \<not> out_of_bounds m (x mod width m, y mod height m)"
  by (simp add: out_of_bounds_def not_less not_le)

lemma neighbor_coord_torus:
  assumes "torus m" "0 < width m" "0 < height m" "d \<noteq> (0, 0)"
  shows "neighbor_coord m p d = Some ((fst p + fst d) mod width m, (snd p + snd d) mod height m)"
proof (cases "out_of_bounds m (fst p + fst d, snd p + snd d)")
  case True
  with assms show ?thesis
    by (cases d) (simp add: neighbor_coord_def torus_adj_def mod_in_bounds Let_def)
next
  case False
  with assms in_bounds_mod[OF False] show ?thesis
    by (cases d) (simp add: neighbor_coord_def torus_adj_def Let_def)
qed

lemma torus_adj_in_loop:
  assumes "\<not> (\<not> torus m \<and>
              (\<not> (0 \<le> dx + x \<and> dx + x < width m) \<or> \<not> (0 \<le> dy + y \<and> dy + y < height m)))"
  shows "torus_adj m (x + dx, y + dy) \<noteq> None"
  using assms by (auto simp: torus_adj_def out_of_bounds_def add.commute)

lemma neighbor_coord_center: "neighbor_coord m p (0, 0) = None"
  by (simp add: neighbor_coord_def)

lemma neighbor_coord_bounded:
  assumes "\<not> torus m" "d \<noteq> (0, 0)"
  shows "neighbor_coord m p d =
           (if out_of_bounds m (fst p + fst d, snd p + snd d) then None
            else Some (fst p + fst d, snd p + snd d))"
  using assms
  by (cases d) (auto simp: neighbor_coord_def torus_adj_def out_of_bounds_def Let_def)


lemma iter_neighborhood_length:
  "length (iter_neighborhood m p) = card {q. \<exists>d \<in> set offsets. neighbor_coord m p d = Some q}"
  using distinct_card[OF iter_neighborhood_distinct, of m p]
  by (simp add: iter_neighborhood_set)

lemma mod_shift_inj:
  fixes x w :: int
  assumes "3 \<le> w" "a \<in> {-1, 0, 1}" "b \<in> {-1, 0, 1}" "(x + a) mod w = (x + b) mod w"
  shows "a = b"
proof -
  from assms(4) have "w dvd (x + a) - (x + b)" by (simp add: mod_eq_dvd_iff)
  then have "w dvd a - b" by simp
  moreover from assms(1,2,3) have "\<bar>a - b\<bar> < w" by auto
  ultimately show ?thesis
    using zdvd_not_zless[of "\<bar>a - b\<bar>" w] by (cases "a = b") simp_all
qed

lemma card_offsets: "card (set offsets - {(0, 0)}) = 8"
  by (simp add: offsets_def)

lemma offsets_ds: "({-1, 0, 1} \<times> {-1, 0, 1}) - {(0, 0)} = set offsets - {(0::int, 0::int)}"
  by (simp only: set_offsets)

lemma neighbor_set_torus:
  assumes "torus m" "0 < width m" "0 < height m"
  shows "{q. \<exists>d \<in> set offsets. neighbor_coord m p d = Some q} =
         (\<lambda>d. ((fst p + fst d) mod width m, (snd p + snd d) mod height m)) ` (set offsets - {(0, 0)})"
    (is "?L = ?f ` ?D")
proof (intro set_eqI iffI)
  have nc: "neighbor_coord m p d = Some (?f d)" if "d \<noteq> (0, 0)" for d
    using assms that by (intro neighbor_coord_torus) simp_all
  {
    fix q assume "q \<in> ?L"
    then obtain d where d: "d \<in> set offsets" "neighbor_coord m p d = Some q" by blast
    then have "d \<noteq> (0, 0)" using neighbor_coord_center[of m p] by auto
    with d nc[of d] show "q \<in> ?f ` ?D" by (simp add: image_iff) blast
  next
    fix q assume "q \<in> ?f ` ?D"
    then obtain d where d: "d \<in> set offsets" "d \<noteq> (0, 0)" "q = ?f d" by blast
    with nc[of d] show "q \<in> ?L" by blast
  }
qed

lemma neighbor_set_bounded:
  assumes "\<not> torus m"
  shows "{q. \<exists>d \<in> set offsets. neighbor_coord m p d = Some q} =
         Set.filter (\<lambda>q. \<not> out_of_bounds m q)
           ((\<lambda>d. (fst p + fst d, snd p + snd d)) ` (set offsets - {(0, 0)}))"
    (is "?L = Set.filter ?P (?f ` ?D)")
proof (intro set_eqI iffI)
  have nc: "neighbor_coord m p d = (if out_of_bounds m (?f d) then None else Some (?f d))"
    if "d \<noteq> (0, 0)" for d
    using assms that by (rule neighbor_coord_bounded)
  {
    fix q assume "q \<in> ?L"
    then obtain d where d: "d \<in> set offsets" "neighbor_coord m p d = Some q" by blast
    then have d0: "d \<noteq> (0, 0)" using neighbor_coord_center[of m p] by auto
    with d nc[of d] have "\<not> out_of_bounds m (?f d)" "q = ?f d"
      by (simp_all split: if_splits)
    with d(1) d0 show "q \<in> Set.filter ?P (?f ` ?D)" by (simp add: image_iff) blast
  next
    fix q assume "q \<in> Set.filter ?P (?f ` ?D)"
    then obtain d where d: "d \<in> set offsets" "d \<noteq> (0, 0)" "q = ?f d" "\<not> out_of_bounds m q"
      by auto
    with nc[of d] show "q \<in> ?L" by auto
  }
qed

lemma iter_neighborhood_moore:
  assumes "0 < width m" "0 < height m"
  shows "set (iter_neighborhood m p) = moore_neighborhood m p"
proof (cases "torus m")
  case True
  then show ?thesis
    using neighbor_set_torus[OF True assms, of p]
    by (simp only: iter_neighborhood_set moore_neighborhood_def Let_def offsets_ds if_True)
next
  case False
  then show ?thesis
    using neighbor_set_bounded[OF False, of p]
    by (simp only: iter_neighborhood_set moore_neighborhood_def Let_def offsets_ds if_False)
qed

lemma length_filter_card:
  "distinct xs \<Longrightarrow> length (filter P xs) = card (Set.filter P (set xs))"
proof -
  have "{x. P x} \<inter> set xs = Set.filter P (set xs)" by auto
  then show "distinct xs \<Longrightarrow> length (filter P xs) = card (Set.filter P (set xs))"
    by (simp only: distinct_length_filter)
qed

lemma count_true_map: "length (filter (\<lambda>b. b) (map f xs)) = length (filter f xs)"
  by (induction xs) simp_all

lemma iter_neighborhood_at_most_eight: "length (iter_neighborhood m p) \<le> 8"
proof -
  let ?D = "set offsets - {(0, 0)}"
  let ?N = "{q. \<exists>d \<in> set offsets. neighbor_coord m p d = Some q}"
  have "?N \<subseteq> (\<lambda>d. the (neighbor_coord m p d)) ` ?D"
  proof
    fix q assume "q \<in> ?N"
    then obtain d where d: "d \<in> set offsets" "neighbor_coord m p d = Some q" by blast
    then have "d \<noteq> (0, 0)" using neighbor_coord_center[of m p] by auto
    with d show "q \<in> (\<lambda>d. the (neighbor_coord m p d)) ` ?D" by force
  qed
  then have "card ?N \<le> card ((\<lambda>d. the (neighbor_coord m p d)) ` ?D)"
    by (intro card_mono) simp_all
  also have "\<dots> \<le> card ?D" by (intro card_image_le) simp
  finally show ?thesis by (simp only: iter_neighborhood_length card_offsets)
qed

lemma torus_neighbors_eight:
  assumes "torus m" "3 \<le> width m" "3 \<le> height m"
  shows "length (iter_neighborhood m p) = 8 \<and> distinct (iter_neighborhood m p)"
proof -
  let ?f = "\<lambda>d. ((fst p + fst d) mod width m, (snd p + snd d) mod height m)"
  let ?D = "set offsets - {(0, 0)}"
  from assms have pos: "0 < width m" "0 < height m" by simp_all
  have inj: "inj_on ?f ?D"
  proof (rule inj_onI)
    fix d e assume d: "d \<in> ?D" and e: "e \<in> ?D" and eq: "?f d = ?f e"
    from d e have "d \<in> set offsets" "e \<in> set offsets" by simp_all
    then have r: "fst d \<in> {-1,0,1}" "snd d \<in> {-1,0,1}" "fst e \<in> {-1,0,1}" "snd e \<in> {-1,0,1}"
      unfolding set_offsets mem_Times_iff by blast+
    from eq have "(fst p + fst d) mod width m = (fst p + fst e) mod width m"
      and "(snd p + snd d) mod height m = (snd p + snd e) mod height m" by simp_all
    then have "fst d = fst e" "snd d = snd e"
      using mod_shift_inj[OF assms(2) r(1) r(3)] mod_shift_inj[OF assms(3) r(2) r(4)] by blast+
    then show "d = e" by (simp add: prod_eq_iff)
  qed
  then have "card (?f ` ?D) = 8"
    by (simp only: card_image card_offsets)
  then have "card {q. \<exists>d \<in> set offsets. neighbor_coord m p d = Some q} = 8"
    by (simp only: neighbor_set_torus[OF assms(1) pos])
  then show ?thesis
    by (simp add: iter_neighborhood_length iter_neighborhood_distinct)
qed

subsection \<open>The invariant of the grid\<close>

lemma set_coord_iter: "set (coord_iter m) = {0..width m - 1} \<times> {0..height m - 1}"
  by (auto simp: coord_iter_def)

lemma coord_iter_bounds: "c \<in> set (coord_iter m) \<longleftrightarrow> \<not> out_of_bounds m c"
  by (cases c) (auto simp: set_coord_iter out_of_bounds_def)

lemma grid_inv_finite: "grid_inv m \<Longrightarrow> finite (empties m)"
  by (simp add: grid_inv_def)

lemma grid_inv_empty_cell:
  "grid_inv m \<Longrightarrow> c \<in> empties m \<Longrightarrow> c \<in> set (coord_iter m) \<and> grid m c = None"
  by (simp add: grid_inv_def)

lemma grid_inv_registered:
  assumes "grid_inv m" "map_of (agents m) k = Some a"
  shows "unique_id a = k" "agent_pos m k \<in> set (coord_iter m)" "grid m (agent_pos m k) = Some a"
proof -
  from assms(2) have "(k, a) \<in> set (agents m)" by (rule map_of_SomeD)
  with assms(1) show "unique_id a = k" "agent_pos m k \<in> set (coord_iter m)"
    "grid m (agent_pos m k) = Some a"
    unfolding grid_inv_def by fastforce+
qed

lemma grid_inv_relocate:
  assumes inv: "grid_inv m" and reg: "map_of (agents m) k = Some a" and n: "n \<in> empties m"
  shows "grid_inv (relocate m a n)"
proof -
  let ?C = "set (coord_iter m)"
  let ?p = "agent_pos m (unique_id a)"
  let ?m' = "relocate m a n"
  note r = grid_inv_registered[OF inv reg]
  from r have p: "?p \<in> ?C" "grid m ?p = Some a" by simp_all
  from grid_inv_empty_cell[OF inv n] have nC: "n \<in> ?C" "grid m n = None" by simp_all
  from p nC have np: "n \<noteq> ?p" by auto
  have C: "coord_iter ?m' = coord_iter m" by (simp add: relocate_def coord_iter_def)
  have g: "grid ?m' c = (if c = ?p then None else if c = n then Some a else grid m c)" for c
    by (simp add: relocate_def)
  have P: "agent_pos ?m' u = (if u = unique_id a then n else agent_pos m u)" for u
    by (simp add: relocate_def)
  have A: "agents ?m' = agents m" by (simp add: relocate_def)
  have E: "empties ?m' = insert ?p (empties m - {n})" by (simp add: relocate_def)
  from inv have E0: "empties m = Set.filter (\<lambda>c. grid m c = None) ?C"
    and I2: "\<And>c b. c \<in> ?C \<Longrightarrow> grid m c = Some b \<Longrightarrow>
                agent_pos m (unique_id b) = c \<and> map_of (agents m) (unique_id b) = Some b"
    and I3: "\<And>k' b. (k', b) \<in> set (agents m) \<Longrightarrow>
                unique_id b = k' \<and> agent_pos m k' \<in> ?C \<and> grid m (agent_pos m k') = Some b"
    and I4: "distinct (map fst (agents m))"
    unfolding grid_inv_def by (simp, force, force, simp)
  have 1: "empties ?m' = Set.filter (\<lambda>c. grid ?m' c = None) (set (coord_iter ?m'))"
    unfolding E C using E0 p nC np by (auto simp: g)
  have 2: "\<forall>c \<in> set (coord_iter ?m').
             case grid ?m' c of None \<Rightarrow> True
             | Some b \<Rightarrow> agent_pos ?m' (unique_id b) = c \<and> map_of (agents ?m') (unique_id b) = Some b"
  proof
    fix c assume "c \<in> set (coord_iter ?m')"
    then have cC: "c \<in> ?C" by (simp only: C)
    show "case grid ?m' c of None \<Rightarrow> True
          | Some b \<Rightarrow> agent_pos ?m' (unique_id b) = c \<and> map_of (agents ?m') (unique_id b) = Some b"
    proof (cases "c = ?p")
      case True then show ?thesis by (simp add: g)
    next
      case cp: False
      show ?thesis
      proof (cases "c = n")
        case True
        with cp r reg show ?thesis by (simp add: g P A)
      next
        case cn: False
        show ?thesis
        proof (cases "grid m c")
          case None with cp cn show ?thesis by (simp add: g)
        next
          case (Some b)
          from I2[OF cC Some] have b: "agent_pos m (unique_id b) = c" "map_of (agents m) (unique_id b) = Some b"
            by simp_all
          from b(1) cp have "unique_id b \<noteq> unique_id a" by auto
          with b Some cp cn show ?thesis by (simp add: g P A)
        qed
      qed
    qed
  qed
  have 3: "\<forall>ka \<in> set (agents ?m').
             unique_id (snd ka) = fst ka \<and> agent_pos ?m' (fst ka) \<in> set (coord_iter ?m') \<and>
             grid ?m' (agent_pos ?m' (fst ka)) = Some (snd ka)"
  proof
    fix ka assume "ka \<in> set (agents ?m')"
    then have mem: "(fst ka, snd ka) \<in> set (agents m)" by (simp add: A)
    from I3[OF mem] have f: "unique_id (snd ka) = fst ka" "agent_pos m (fst ka) \<in> ?C"
      "grid m (agent_pos m (fst ka)) = Some (snd ka)" by simp_all
    show "unique_id (snd ka) = fst ka \<and> agent_pos ?m' (fst ka) \<in> set (coord_iter ?m') \<and>
          grid ?m' (agent_pos ?m' (fst ka)) = Some (snd ka)"
    proof (cases "fst ka = unique_id a")
      case True
      with mem I4 reg r(1) have "snd ka = a" by (metis map_of_is_SomeI option.inject)
      with True f nC np show ?thesis by (simp add: g P C)
    next
      case False
      from f(3) nC(2) have "agent_pos m (fst ka) \<noteq> n" by auto
      moreover have "agent_pos m (fst ka) \<noteq> ?p"
      proof
        assume "agent_pos m (fst ka) = ?p"
        with f(3) p(2) have "snd ka = a" by simp
        with f(1) False show False by simp
      qed
      ultimately show ?thesis using False f by (simp add: g P C)
    qed
  qed
  have 4: "distinct (map fst (agents ?m'))" using I4 by (simp add: A)
  from 1 2 3 4 show ?thesis unfolding grid_inv_def by blast
qed

subsection \<open>Moving an agent\<close>

lemma grid_inv_draws [simp]:
  "grid_inv (m\<lparr>random_draws := ds\<rparr>) = grid_inv m"
  "grid_inv (m\<lparr>np_draws := ds\<rparr>) = grid_inv m"
  "grid_inv (m\<lparr>moved := k\<rparr>) = grid_inv m"
  "grid_inv (m\<lparr>steps := k\<rparr>) = grid_inv m"
  by (simp_all add: grid_inv_def coord_iter_def cong: option.case_cong)

lemma random_choice_nonempty:
  "xs \<noteq> [] \<Longrightarrow>
   random_choice m xs =
     Inr (xs ! (fst (next_draw (random_draws m)) mod length xs),
          m\<lparr>random_draws := snd (next_draw (random_draws m))\<rparr>)"
  by (simp add: random_choice_def randbelow_def split: prod.splits)

lemma move_to_empty_full:
  "card (empties m) = 0 \<Longrightarrow> move_to_empty m a = Inl (NoEmptyCells, m)"
  by (simp add: move_to_empty_def)

lemma chosen_empty_member:
  assumes "finite (empties m)" "empties m \<noteq> {}"
  shows "chosen_empty m \<in> empties m"
proof -
  let ?xs = "sorted_list_of_set (empties m)"
  from assms have "0 < length ?xs" by (simp add: card_gt_0_iff)
  then have "fst (next_draw (random_draws m)) mod length ?xs < length ?xs"
    by (rule mod_less_divisor)
  then have "chosen_empty m \<in> set ?xs" unfolding chosen_empty_def by (rule nth_mem)
  with assms(1) show ?thesis by simp
qed

lemma move_to_empty_relocate:
  assumes fin: "finite (empties m)" and ne: "empties m \<noteq> {}"
    and free: "grid m (chosen_empty m) = None"
  shows "move_to_empty m a =
           Inr ((relocate m a (chosen_empty m))\<lparr>random_draws := snd (next_draw (random_draws m))\<rparr>)"
proof -
  from fin ne have c: "card (empties m) \<noteq> 0" by simp
  from fin ne have xs: "sorted_list_of_set (empties m) \<noteq> []" by simp
  show ?thesis
    unfolding move_to_empty_def Let_def
    using c free[unfolded chosen_empty_def]
    by (simp add: random_choice_nonempty[OF xs] chosen_empty_def
        place_agent_cell_def is_cell_empty_def remove_agent_cell_def relocate_def)
qed

lemma move_to_empty_inv:
  assumes inv: "grid_inv m" and reg: "map_of (agents m) k = Some a" and ne: "empties m \<noteq> {}"
  shows "move_to_empty m a =
           Inr ((relocate m a (chosen_empty m))\<lparr>random_draws := snd (next_draw (random_draws m))\<rparr>)"
    and "chosen_empty m \<in> empties m"
    and "grid_inv (relocate m a (chosen_empty m))"
proof -
  from inv have fin: "finite (empties m)" by (rule grid_inv_finite)
  show n: "chosen_empty m \<in> empties m" by (rule chosen_empty_member[OF fin ne])
  from grid_inv_empty_cell[OF inv n] have "grid m (chosen_empty m) = None" by simp
  then show "move_to_empty m a =
           Inr ((relocate m a (chosen_empty m))\<lparr>random_draws := snd (next_draw (random_draws m))\<rparr>)"
    by (rule move_to_empty_relocate[OF fin ne])
  show "grid_inv (relocate m a (chosen_empty m))" by (rule grid_inv_relocate[OF inv reg n])
qed

subsection \<open>The step of an agent\<close>

lemma agent_step_happy:
  "\<not> float_less (pct_similar_neighbors m a) (homophily a) \<Longrightarrow> agent_step m a = Inr m"
  by (simp add: agent_step_def)

lemma agent_step_full:
  "float_less (pct_similar_neighbors m a) (homophily a) \<Longrightarrow> card (empties m) = 0 \<Longrightarrow>
   agent_step m a = Inl (NoEmptyCells, m)"
  by (simp add: agent_step_def move_to_empty_full)

lemma agent_step_moves:
  assumes "grid_inv m" "map_of (agents m) k = Some a" "empties m \<noteq> {}"
    and "float_less (pct_similar_neighbors m a) (homophily a)"
  shows "agent_step m a = Inr (moved_agent m a)"
  using assms(4) move_to_empty_inv(1)[OF assms(1,2,3)]
  by (simp add: agent_step_def moved_agent_def relocate_def)

lemma grid_inv_moved_agent:
  assumes "grid_inv m" "map_of (agents m) k = Some a" "empties m \<noteq> {}"
  shows "grid_inv (moved_agent m a)"
  using move_to_empty_inv(3)[OF assms] by (simp add: moved_agent_def)

lemma moved_agent_fields:
  "agents (moved_agent m a) = agents m" "width (moved_agent m a) = width m"
  "height (moved_agent m a) = height m" "torus (moved_agent m a) = torus m"
  "steps (moved_agent m a) = steps m" "np_draws (moved_agent m a) = np_draws m"
  by (simp_all add: moved_agent_def relocate_def)

text \<open>The three outcomes of an agent's step in a consistent state.\<close>

lemma agent_step_cases:
  assumes inv: "grid_inv m" and reg: "map_of (agents m) k = Some a"
  shows "agent_step m a =
           (if \<not> float_less (pct_similar_neighbors m a) (homophily a) then Inr m
            else if empties m = {} then Inl (NoEmptyCells, m)
            else Inr (moved_agent m a))"
proof (cases "float_less (pct_similar_neighbors m a) (homophily a)")
  case False
  then show ?thesis by (simp add: agent_step_happy)
next
  case True
  show ?thesis
  proof (cases "empties m = {}")
    case True
    with \<open>float_less (pct_similar_neighbors m a) (homophily a)\<close> show ?thesis
      by (simp add: agent_step_full)
  next
    case False
    with True agent_step_moves[OF inv reg False True] show ?thesis by simp
  qed
qed

lemma agent_step_preserves:
  assumes inv: "grid_inv m" and reg: "map_of (agents m) k = Some a"
  shows "agent_step m a = Inr m' \<Longrightarrow> grid_inv m' \<and> agents m' = agents m"
    and "agent_step m a = Inl (e, m') \<Longrightarrow> e = NoEmptyCells \<and> m' = m"
  using grid_inv_moved_agent[OF inv reg] inv
  unfolding agent_step_cases[OF inv reg]
  by (auto simp: moved_agent_fields split: if_splits)

lemma run_agents_preserves:
  assumes "grid_inv m"
  shows "(run_agents ks m = Inr m' \<longrightarrow> grid_inv m' \<and> agents m' = agents m) \<and>
         (run_agents ks m = Inl (e, m') \<longrightarrow> e = NoEmptyCells \<and> grid_inv m' \<and> agents m' = agents m)"
  using assms
proof (induction ks arbitrary: m)
  case Nil
  then show ?case by auto
next
  case (Cons k ks)
  show ?case
  proof (cases "map_of (agents m) k")
    case None
    with Cons.IH[OF Cons.prems] show ?thesis by simp
  next
    case (Some a)
    note pr = agent_step_preserves[OF Cons.prems Some]
    show ?thesis
    proof (cases "agent_step m a")
      case (Inl em)
      obtain e1 m1 where em: "em = (e1, m1)" by (cases em)
      with Inl pr(2)[of e1 m1] Some Cons.prems show ?thesis by auto
    next
      case (Inr m1)
      with pr(1)[of m1] have m1: "grid_inv m1" "agents m1 = agents m" by simp_all
      from Cons.IH[OF m1(1)] m1(2) Inr Some show ?thesis by simp
    qed
  qed
qed

subsection \<open>The scheduler\<close>

lemma randbelow_less: "0 < n \<Longrightarrow> fst (randbelow n m) < n"
  by (simp add: randbelow_def split: prod.splits)

lemma randbelow_state:
  "snd (randbelow n m) = m\<lparr>random_draws := snd (next_draw (random_draws m))\<rparr>"
  by (simp add: randbelow_def split: prod.splits)

lemma shuffle_loop_mset:
  "i < length xs \<Longrightarrow> mset (fst (shuffle_loop i xs m)) = mset xs"
proof (induction i arbitrary: xs m)
  case 0
  then show ?case by simp
next
  case (Suc i)
  obtain j m' where r: "randbelow (Suc i + 1) m = (j, m')" by (cases "randbelow (Suc i + 1) m")
  from randbelow_less[of "Suc i + 1" m] r have "j < Suc i + 1" by simp
  with Suc.prems have j: "j < length xs" by simp
  let ?ys = "xs[Suc i := xs ! j, j := xs ! Suc i]"
  from Suc.prems j have sw: "mset ?ys = mset xs" by (simp add: mset_swap)
  from Suc.prems have "i < length ?ys" by simp
  from Suc.IH[OF this, of m'] sw r show ?case by simp
qed

lemma shuffle_loop_state: "\<exists>ds. snd (shuffle_loop i xs m) = m\<lparr>random_draws := ds\<rparr>"
proof (induction i arbitrary: xs m)
  case 0
  have "m = m\<lparr>random_draws := random_draws m\<rparr>" by simp
  then show ?case by (metis shuffle_loop.simps(1) snd_conv)
next
  case (Suc i)
  obtain j m' where r: "randbelow (Suc i + 1) m = (j, m')" by (cases "randbelow (Suc i + 1) m")
  with randbelow_state[of "Suc i + 1" m]
  have m': "m' = m\<lparr>random_draws := snd (next_draw (random_draws m))\<rparr>" by simp
  from Suc.IH[of "xs[Suc i := xs ! j, j := xs ! Suc i]" m'] obtain ds
    where "snd (shuffle_loop i (xs[Suc i := xs ! j, j := xs ! Suc i]) m') = m'\<lparr>random_draws := ds\<rparr>"
    by blast
  with r m' have "snd (shuffle_loop (Suc i) xs m) = m\<lparr>random_draws := ds\<rparr>" by simp
  then show ?case by blast
qed

lemma shuffle_mset: "mset (fst (shuffle xs m)) = mset xs"
proof (cases xs)
  case Nil
  then show ?thesis by (simp add: shuffle_def)
next
  case (Cons x xs')
  then have "length xs - 1 < length xs" by simp
  then show ?thesis unfolding shuffle_def by (rule shuffle_loop_mset)
qed

lemma shuffle_state: "\<exists>ds. snd (shuffle xs m) = m\<lparr>random_draws := ds\<rparr>"
  unfolding shuffle_def by (rule shuffle_loop_state)


lemma shuffle_set: "set (fst (shuffle xs m)) = set xs"
  using shuffle_mset[of xs m] by (rule mset_eq_setD)

lemma schedule_step_preserves:
  assumes "grid_inv m"
  shows "(schedule_step m = Inr m' \<longrightarrow> grid_inv m' \<and> agents m' = agents m) \<and>
         (schedule_step m = Inl (e, m') \<longrightarrow> e = NoEmptyCells \<and> grid_inv m' \<and> agents m' = agents m)"
proof -
  obtain ks m1 where sh: "shuffle (map fst (agents m)) m = (ks, m1)"
    by (cases "shuffle (map fst (agents m)) m")
  with shuffle_state[of "map fst (agents m)" m] obtain ds where m1: "m1 = m\<lparr>random_draws := ds\<rparr>"
    by auto
  with assms have inv1: "grid_inv m1" and ag1: "agents m1 = agents m" by simp_all
  note ra = run_agents_preserves[OF inv1]
  show ?thesis
  proof (cases "run_agents ks m1")
    case (Inl em)
    obtain e1 m2 where "em = (e1, m2)" by (cases em)
    with Inl ra[where ks=ks and m'=m2 and e=e1] sh ag1 show ?thesis by (auto simp: schedule_step_def)
  next
    case (Inr m2)
    with ra[where ks=ks and m'=m2 and e=e] sh ag1 show ?thesis by (auto simp: schedule_step_def)
  qed
qed

lemma model_step_preserves:
  assumes "grid_inv m"
  shows "(model_step m = Inr m' \<longrightarrow> grid_inv m' \<and> agents m' = agents m) \<and>
         (model_step m = Inl (e, m') \<longrightarrow> e = NoEmptyCells \<and> grid_inv m' \<and> agents m' = agents m)"
proof -
  from assms have "grid_inv (m\<lparr>moved := 0\<rparr>)" by simp
  from schedule_step_preserves[OF this, where m'=m' and e=e] show ?thesis by (simp add: model_step_def)
qed

subsection \<open>The constructor\<close>

lemma grid_inv_placed:
  assumes inv: "grid_inv m" and new: "unique_id a \<notin> fst ` set (agents m)" and n: "n \<in> empties m"
  shows "grid_inv (placed m a n)"
proof -
  let ?C = "set (coord_iter m)"
  let ?m' = "placed m a n"
  let ?u = "unique_id a"
  from grid_inv_empty_cell[OF inv n] have nC: "n \<in> ?C" "grid m n = None" by simp_all
  have C: "coord_iter ?m' = coord_iter m" by (simp add: placed_def coord_iter_def)
  have g: "grid ?m' c = (if c = n then Some a else grid m c)" for c
    by (simp add: placed_def)
  have P: "agent_pos ?m' u = (if u = ?u then n else agent_pos m u)" for u
    by (simp add: placed_def)
  have A: "agents ?m' = agents m @ [(?u, a)]" by (simp add: placed_def)
  have E: "empties ?m' = empties m - {n}" by (simp add: placed_def)
  from inv have E0: "empties m = Set.filter (\<lambda>c. grid m c = None) ?C"
    and I2: "\<And>c b. c \<in> ?C \<Longrightarrow> grid m c = Some b \<Longrightarrow>
                agent_pos m (unique_id b) = c \<and> map_of (agents m) (unique_id b) = Some b"
    and I3: "\<And>k' b. (k', b) \<in> set (agents m) \<Longrightarrow>
                unique_id b = k' \<and> agent_pos m k' \<in> ?C \<and> grid m (agent_pos m k') = Some b"
    and I4: "distinct (map fst (agents m))"
    unfolding grid_inv_def by (simp, force, force, simp)
  from new have newmap: "map_of (agents m) ?u = None" by (simp add: map_of_eq_None_iff)
  have lookup: "map_of (agents ?m') u = (if u = ?u then Some a else map_of (agents m) u)" for u
    using newmap by (cases "map_of (agents m) u") (auto simp: A map_add_def)
  have 1: "empties ?m' = Set.filter (\<lambda>c. grid ?m' c = None) (set (coord_iter ?m'))"
    unfolding E C using E0 nC by (auto simp: g)
  have 2: "\<forall>c \<in> set (coord_iter ?m').
             case grid ?m' c of None \<Rightarrow> True
             | Some b \<Rightarrow> agent_pos ?m' (unique_id b) = c \<and> map_of (agents ?m') (unique_id b) = Some b"
  proof
    fix c assume "c \<in> set (coord_iter ?m')"
    then have cC: "c \<in> ?C" by (simp only: C)
    show "case grid ?m' c of None \<Rightarrow> True
          | Some b \<Rightarrow> agent_pos ?m' (unique_id b) = c \<and> map_of (agents ?m') (unique_id b) = Some b"
    proof (cases "c = n")
      case True
      then show ?thesis by (simp add: g P lookup)
    next
      case cn: False
      show ?thesis
      proof (cases "grid m c")
        case None with cn show ?thesis by (simp add: g)
      next
        case (Some b)
        from I2[OF cC Some] have b: "agent_pos m (unique_id b) = c" "map_of (agents m) (unique_id b) = Some b"
          by simp_all
        from b(2) newmap have "unique_id b \<noteq> ?u" by auto
        with b Some cn show ?thesis by (simp add: g P lookup)
      qed
    qed
  qed
  have 3: "\<forall>ka \<in> set (agents ?m').
             unique_id (snd ka) = fst ka \<and> agent_pos ?m' (fst ka) \<in> set (coord_iter ?m') \<and>
             grid ?m' (agent_pos ?m' (fst ka)) = Some (snd ka)"
  proof
    fix ka assume "ka \<in> set (agents ?m')"
    then consider (old) "(fst ka, snd ka) \<in> set (agents m)" | (new) "ka = (?u, a)"
      by (auto simp: A)
    then show "unique_id (snd ka) = fst ka \<and> agent_pos ?m' (fst ka) \<in> set (coord_iter ?m') \<and>
          grid ?m' (agent_pos ?m' (fst ka)) = Some (snd ka)"
    proof cases
      case old
      from I3[OF old] have f: "unique_id (snd ka) = fst ka" "agent_pos m (fst ka) \<in> ?C"
        "grid m (agent_pos m (fst ka)) = Some (snd ka)" by simp_all
      from old new have k: "fst ka \<noteq> ?u" by (metis fst_conv image_eqI)
      from f(3) nC(2) have "agent_pos m (fst ka) \<noteq> n" by auto
      with k f show ?thesis by (simp add: g P C)
    next
      case new
      with nC show ?thesis by (simp add: g P C)
    qed
  qed
  have 4: "distinct (map fst (agents ?m'))" using I4 new by (simp add: A)
  from 1 2 3 4 show ?thesis unfolding grid_inv_def by blast
qed

lemma schedule_add_new:
  "unique_id a \<notin> fst ` set (agents m) \<Longrightarrow>
   schedule_add m a = Inr (m\<lparr>agents := agents m @ [(unique_id a, a)]\<rparr>)"
  by (simp add: schedule_add_def)

lemma position_agent_random:
  assumes fin: "finite (empties m)" and ne: "empties m \<noteq> {}"
    and free: "grid m (chosen_empty m) = None"
  shows "position_agent m a (Default_y x) =
           Inr (m\<lparr>random_draws := snd (next_draw (random_draws m)),
                  agent_pos := (agent_pos m)(unique_id a := chosen_empty m),
                  grid := (grid m)(chosen_empty m := Some a),
                  empties := empties m - {chosen_empty m}\<rparr>)"
proof -
  from fin ne have c: "card (empties m) \<noteq> 0" by simp
  from fin ne have xs: "sorted_list_of_set (empties m) \<noteq> []" by simp
  show ?thesis
    unfolding position_agent_def
    using c free[unfolded chosen_empty_def]
    by (simp add: random_choice_nonempty[OF xs] chosen_empty_def
        place_agent_cell_def is_cell_empty_def)
qed

lemma position_agent_coords:
  "position_agent (new_model 3 3 [] []) a (Coords 5 5) =
     Inl (IndexError,
          (new_model 3 3 [] [])\<lparr>agent_pos := (\<lambda>u. u)(unique_id a := (5, 5))\<rparr>)"
  "position_agent (new_model 3 3 [] []) a (Coords (- 1) (- 1)) =
     Inr ((new_model 3 3 [] [])
            \<lparr>agent_pos := (\<lambda>u. u)(unique_id a := (- 1, - 1)),
             grid := (\<lambda>c. None)((2, 2) := Some a)\<rparr>)"
  by (auto simp add: position_agent_def list_index_def new_model_def Let_def)

lemma grid_inv_cong:
  assumes "width m' = width m" "height m' = height m" "grid m' = grid m"
    "empties m' = empties m" "agents m' = agents m" "agent_pos m' = agent_pos m"
  shows "grid_inv m' = grid_inv m"
  using assms by (simp add: grid_inv_def coord_iter_def cong: option.case_cong)

lemma random_random_range: "0 \<le> fst (random_random m) \<and> fst (random_random m) < 1"
proof -
  obtain d ds where nd: "next_draw (random_draws m) = (d, ds)" by (cases "next_draw (random_draws m)")
  have "d mod 2 ^ 53 < (2 ^ 53 :: nat)" by simp
  then have "(of_nat (d mod 2 ^ 53) :: rat) < of_nat (2 ^ 53)" by (simp only: of_nat_less_iff)
  then have "(of_nat (d mod 2 ^ 53) :: rat) / 2 ^ 53 < 1" by simp
  with nd show ?thesis by (simp add: random_random_def)
qed

lemma random_random_state:
  "snd (random_random m) = m\<lparr>random_draws := snd (next_draw (random_draws m))\<rparr>"
  by (simp add: random_random_def split: prod.splits)

lemma np_random_choice_state:
  "snd (np_random_choice m xs) = m\<lparr>np_draws := snd (next_draw (np_draws m))\<rparr>"
  by (simp add: np_random_choice_def split: prod.splits)

lemma init_iteration_skip:
  "\<not> fst (random_random m) < density \<Longrightarrow>
   init_loop density h (cell # cells) m = init_loop density h cells (snd (random_random m))"
  by (cases "random_random m") simp

lemma init_iteration_place:
  assumes inv: "grid_inv m" and new: "cell \<notin> fst ` set (agents m)" and ne: "empties m \<noteq> {}"
    and lt: "fst (random_random m) < density"
  shows "\<exists>a n m5. init_loop density h (cell # cells) m = init_loop density h cells m5 \<and>
           grid_inv m5 \<and> agents m5 = agents m @ [(cell, a)] \<and> homophily a = h \<and>
           n \<in> empties m \<and> empties m5 = empties m - {n} \<and>
           width m5 = width m \<and> height m5 = height m \<and> torus m5 = torus m"
proof -
  define m1 where "m1 = snd (random_random m)"
  define t where "t = fst (np_random_choice m1 [''triangle'', ''square''])"
  define m2 where "m2 = snd (np_random_choice m1 [''triangle'', ''square''])"
  define a where "a = \<lparr>unique_id = cell, agent_type = t, homophily = h\<rparr>"
  define m3 where "m3 = m2\<lparr>agent_pos := (agent_pos m2)(cell := cell)\<rparr>"
  define m4 where "m4 = m3\<lparr>agents := agents m3 @ [(unique_id a, a)]\<rparr>"
  define n where "n = chosen_empty m4"
  define m5 where "m5 = m4\<lparr>random_draws := snd (next_draw (random_draws m4)),
                  agent_pos := (agent_pos m4)(unique_id a := n),
                  grid := (grid m4)(n := Some a),
                  empties := empties m4 - {n}\<rparr>"
  have m1: "m1 = m\<lparr>random_draws := snd (next_draw (random_draws m))\<rparr>"
    unfolding m1_def by (rule random_random_state)
  have m2: "m2 = m1\<lparr>np_draws := snd (next_draw (np_draws m1))\<rparr>"
    unfolding m2_def by (rule np_random_choice_state)
  have ua: "unique_id a = cell" "homophily a = h" by (simp_all add: a_def)
  have f3: "agents m3 = agents m" "empties m3 = empties m" "grid m3 = grid m"
    "width m3 = width m" "height m3 = height m" "torus m3 = torus m"
    "agent_pos m3 = (agent_pos m)(cell := cell)"
    by (simp_all add: m3_def m2 m1)
  have f4: "agents m4 = agents m @ [(cell, a)]" "empties m4 = empties m" "grid m4 = grid m"
    "width m4 = width m" "height m4 = height m" "torus m4 = torus m"
    "agent_pos m4 = (agent_pos m)(cell := cell)"
    by (simp_all add: m4_def f3 ua)
  from inv have fin: "finite (empties m4)" by (simp add: f4 grid_inv_finite)
  from ne have ne4: "empties m4 \<noteq> {}" by (simp add: f4)
  from chosen_empty_member[OF fin ne4] have nE: "n \<in> empties m" by (simp add: n_def f4)
  from grid_inv_empty_cell[OF inv nE] have free: "grid m4 (chosen_empty m4) = None"
    by (simp add: n_def f4)
  have add: "schedule_add m3 a = Inr m4"
    unfolding m4_def using new by (intro schedule_add_new) (simp add: f3 ua)
  have pos: "position_agent m4 a (Default_y (Pair cell)) = Inr m5"
    unfolding m5_def n_def by (rule position_agent_random[OF fin ne4 free])
  obtain r where rr: "random_random m = (r, m1)" and r: "r < density"
    using lt by (cases "random_random m") (simp add: m1_def)
  have nc: "np_random_choice m1 [''triangle'', ''square''] = (t, m2)"
    by (simp add: t_def m2_def)
  have sa: "SchellingAgent m2 cell t h = (a, m3)"
    by (simp add: SchellingAgent_def a_def m3_def)
  have step: "init_loop density h (cell # cells) m = init_loop density h cells m5"
    by (simp add: rr r nc sa add pos)
  have "grid_inv m5 = grid_inv (placed m a n)"
    by (rule grid_inv_cong) (simp_all add: m5_def f4 placed_def ua)
  with grid_inv_placed[OF inv _ nE, of a] new have inv5: "grid_inv m5" by (simp add: ua)
  have f5: "agents m5 = agents m @ [(cell, a)]" "empties m5 = empties m - {n}"
    "width m5 = width m" "height m5 = height m" "torus m5 = torus m"
    by (simp_all add: m5_def f4)
  from step inv5 f5 ua nE show ?thesis by blast
qed

lemma init_loop_total:
  assumes "grid_inv m" "distinct cells" "set cells \<inter> fst ` set (agents m) = {}"
    "length cells \<le> card (empties m)"
  shows "\<exists>m'. init_loop density h cells m = Inr m' \<and> grid_inv m' \<and>
           width m' = width m \<and> height m' = height m \<and> torus m' = torus m \<and>
           (\<forall>ka \<in> set (agents m'). ka \<in> set (agents m) \<or> homophily (snd ka) = h) \<and>
           (1 \<le> density \<longrightarrow> length (agents m') = length (agents m) + length cells) \<and>
           (density \<le> 0 \<longrightarrow> agents m' = agents m)"
  using assms
proof (induction cells arbitrary: m)
  case Nil
  then show ?case by simp
next
  case (Cons cell cells)
  note rng = random_random_range[of m]
  show ?case
  proof (cases "fst (random_random m) < density")
    case False
    let ?m1 = "snd (random_random m)"
    have m1: "?m1 = m\<lparr>random_draws := snd (next_draw (random_draws m))\<rparr>"
      by (rule random_random_state)
    from Cons.prems have "grid_inv ?m1" "distinct cells" "set cells \<inter> fst ` set (agents ?m1) = {}"
      "length cells \<le> card (empties ?m1)"
      by (auto simp: m1)
    from Cons.IH[OF this] obtain m' where m':
      "init_loop density h cells ?m1 = Inr m'" "grid_inv m'"
      "width m' = width ?m1" "height m' = height ?m1" "torus m' = torus ?m1"
      "\<forall>ka \<in> set (agents m'). ka \<in> set (agents ?m1) \<or> homophily (snd ka) = h"
      "1 \<le> density \<longrightarrow> length (agents m') = length (agents ?m1) + length cells"
      "density \<le> 0 \<longrightarrow> agents m' = agents ?m1"
      by blast
    from False rng have d1: "\<not> 1 \<le> density" by simp
    from m' d1 show ?thesis
      unfolding init_iteration_skip[OF False] by (simp add: m1)
  next
    case True
    from Cons.prems(4) have "card (empties m) \<noteq> 0" by simp
    then have ne: "empties m \<noteq> {}" by auto
    from Cons.prems(1) have fin: "finite (empties m)" by (rule grid_inv_finite)
    from Cons.prems(3) have new: "cell \<notin> fst ` set (agents m)" by simp
    from init_iteration_place[OF Cons.prems(1) new ne True, of h cells]
    obtain a n m5 where s:
      "init_loop density h (cell # cells) m = init_loop density h cells m5"
      "grid_inv m5" "agents m5 = agents m @ [(cell, a)]" "homophily a = h"
      "n \<in> empties m" "empties m5 = empties m - {n}"
      "width m5 = width m" "height m5 = height m" "torus m5 = torus m"
      by blast
    from Cons.prems(2) have dc: "distinct cells" "cell \<notin> set cells" by simp_all
    from Cons.prems(3) dc(2) have disj: "set cells \<inter> fst ` set (agents m5) = {}"
      by (auto simp: s(3))
    from fin s(5) Cons.prems(4) have len: "length cells \<le> card (empties m5)"
      by (simp add: s(6))
    from Cons.IH[OF s(2) dc(1) disj len] obtain m' where m':
      "init_loop density h cells m5 = Inr m'" "grid_inv m'"
      "width m' = width m5" "height m' = height m5" "torus m' = torus m5"
      "\<forall>ka \<in> set (agents m'). ka \<in> set (agents m5) \<or> homophily (snd ka) = h"
      "1 \<le> density \<longrightarrow> length (agents m') = length (agents m5) + length cells"
      "density \<le> 0 \<longrightarrow> agents m' = agents m5"
      by blast
    from True rng have d0: "\<not> density \<le> 0" by simp
    from m'(6) s(3,4) have hom: "\<forall>ka \<in> set (agents m'). ka \<in> set (agents m) \<or> homophily (snd ka) = h"
      by auto
    from m'(1-5,7) s(7-9) s(3) d0 hom show ?thesis unfolding s(1) by simp
  qed
qed

lemma coord_iter_product: "coord_iter m = List.product [0..width m - 1] [0..height m - 1]"
  by (simp add: coord_iter_def product_concat_map)

lemma distinct_coord_iter: "distinct (coord_iter m)"
  by (simp add: coord_iter_product distinct_product)

lemma new_model_fields:
  "width (new_model w h rd nd) = w" "height (new_model w h rd nd) = h"
  "torus (new_model w h rd nd)" "agents (new_model w h rd nd) = []"
  "grid (new_model w h rd nd) = (\<lambda>c. None)"
  "empties (new_model w h rd nd) = set (coord_iter (new_model w h rd nd))"
  by (simp_all add: new_model_def coord_iter_def)

lemma grid_inv_new_model: "grid_inv (new_model w h rd nd)"
  by (simp add: grid_inv_def new_model_fields)

lemma init_prefix_total:
  fixes w h rd nd n
  defines "m0 \<equiv> new_model w h rd nd"
  shows "\<exists>m. init_loop density hom (take n (coord_iter m0)) m0 = Inr m \<and> grid_inv m \<and>
           width m = w \<and> height m = h \<and> torus m \<and>
           (\<forall>ka \<in> set (agents m). homophily (snd ka) = hom) \<and>
           (1 \<le> density \<longrightarrow> length (agents m) = length (take n (coord_iter m0))) \<and>
           (density \<le> 0 \<longrightarrow> agents m = [])"
proof -
  let ?cells = "take n (coord_iter m0)"
  have 1: "grid_inv m0" unfolding m0_def by (rule grid_inv_new_model)
  have 2: "distinct ?cells" by (simp add: distinct_coord_iter)
  have 3: "set ?cells \<inter> fst ` set (agents m0) = {}" by (simp add: m0_def new_model_fields)
  have "card (empties m0) = length (coord_iter m0)"
    unfolding m0_def new_model_fields by (rule distinct_card[OF distinct_coord_iter])
  then have 4: "length ?cells \<le> card (empties m0)" by simp
  from init_loop_total[OF 1 2 3 4, of density hom] show ?thesis
    by (auto simp: m0_def new_model_fields)
qed

lemma SchellingModel_total:
  "\<exists>m. SchellingModel w h density hom rd nd = Inr m \<and> grid_inv m \<and>
        width m = w \<and> height m = h \<and> torus m \<and>
        (\<forall>ka \<in> set (agents m). homophily (snd ka) = hom) \<and>
        (1 \<le> density \<longrightarrow> length (agents m) = length (coord_iter m)) \<and>
        (density \<le> 0 \<longrightarrow> agents m = [])"
proof -
  let ?m0 = "new_model w h rd nd"
  from init_prefix_total[of density hom "length (coord_iter ?m0)" w h rd nd]
  obtain m where m: "init_loop density hom (coord_iter ?m0) ?m0 = Inr m" "grid_inv m"
    "width m = w" "height m = h" "torus m" "\<forall>ka \<in> set (agents m). homophily (snd ka) = hom"
    "1 \<le> density \<longrightarrow> length (agents m) = length (coord_iter ?m0)"
    "density \<le> 0 \<longrightarrow> agents m = []"
    by auto
  have "coord_iter m = coord_iter ?m0" by (simp add: coord_iter_def m(3,4) new_model_fields)
  with m show ?thesis by (simp add: SchellingModel_def Let_def)
qed

subsection \<open>Reachable states and happy agents\<close>

lemma reachable_grid_inv: "reachable m \<Longrightarrow> grid_inv m"
proof (induction rule: reachable.induct)
  case (constructed w h density hom rd nd m)
  with SchellingModel_total[of w h density hom rd nd] show ?case by auto
next
  case (placing density hom n w h rd nd m)
  with init_prefix_total[of density hom n w h rd nd] show ?case by auto
next
  case (ticked m m')
  with model_step_preserves[of m m'] show ?case by simp
next
  case (tick_raised m e m')
  with model_step_preserves[of m m' e] show ?case by simp
next
  case (activating m n m')
  let ?m0 = "m\<lparr>moved := 0\<rparr>"
  from shuffle_state[of "map fst (agents m)" ?m0] obtain ds
    where "snd (shuffle (map fst (agents m)) ?m0) = ?m0\<lparr>random_draws := ds\<rparr>" by blast
  with activating.IH have "grid_inv (snd (shuffle (map fst (agents m)) ?m0))" by simp
  from run_agents_preserves[OF this] activating.hyps(2) show ?case by blast
qed

lemma float_less_nonpos:
  assumes "h \<le> 0"
  shows "\<not> float_less (np_mean bs) h"
proof (cases "bs = []")
  case True
  then show ?thesis by (simp add: np_mean_def)
next
  case False
  from assms have "h \<le> float_quotient (length (filter (\<lambda>b. b) bs)) (length bs)"
    by (rule order_trans) (rule float_quotient_nonneg)
  with False show ?thesis by (simp add: np_mean_def not_less)
qed

lemma nonpos_homophily_happy:
  "\<forall>ka \<in> set (agents m). homophily (snd ka) \<le> 0 \<Longrightarrow> \<not> unhappy m k"
proof (cases "map_of (agents m) k")
  case None
  then show ?thesis by (simp add: unhappy_def)
next
  case (Some a)
  assume "\<forall>ka \<in> set (agents m). homophily (snd ka) \<le> 0"
  with map_of_SomeD[OF Some] have "homophily a \<le> 0" by force
  with Some show ?thesis
    by (simp add: unhappy_def pct_similar_neighbors_def float_less_nonpos)
qed

lemma run_agents_all_happy:
  "\<forall>k \<in> set ks. \<not> unhappy m k \<Longrightarrow> run_agents ks m = Inr m"
proof (induction ks)
  case Nil
  then show ?case by simp
next
  case (Cons k ks)
  then show ?case
    by (cases "map_of (agents m) k") (simp_all add: unhappy_def agent_step_happy)
qed

lemma out_of_bounds_frame:
  "width m' = width m \<Longrightarrow> height m' = height m \<Longrightarrow> out_of_bounds m' = out_of_bounds m"
  by (rule ext) (simp add: out_of_bounds_def)

lemma torus_adj_frame:
  assumes "width m' = width m" "height m' = height m" "torus m' = torus m"
  shows "torus_adj m' = torus_adj m"
  by (rule ext) (simp add: torus_adj_def assms out_of_bounds_frame[OF assms(1,2)])

lemma neighbor_coord_frame:
  assumes "width m' = width m" "height m' = height m" "torus m' = torus m"
  shows "neighbor_coord m' p d = neighbor_coord m p d"
  unfolding neighbor_coord_def
  by (simp only: assms out_of_bounds_frame[OF assms(1,2)] torus_adj_frame[OF assms])

lemma neighborhood_loop_frame:
  assumes "width m' = width m" "height m' = height m" "torus m' = torus m"
  shows "neighborhood_loop m' p ds acc = neighborhood_loop m p ds acc"
  by (induction ds arbitrary: acc)
    (simp_all add: neighbor_coord_frame[OF assms] split: option.split)

lemma unhappy_frame:
  assumes "width m' = width m" "height m' = height m" "torus m' = torus m"
    "grid m' = grid m" "agent_pos m' = agent_pos m" "agents m' = agents m"
  shows "unhappy m' k = unhappy m k"
  using assms(4-6)
  by (simp add: unhappy_def pct_similar_neighbors_def neighbor_iter_def
      iter_cell_list_contents_def is_cell_empty_def iter_neighborhood_def
      neighborhood_loop_frame[OF assms(1-3)] cong: option.case_cong)

lemma model_step_all_happy:
  assumes "\<forall>k. \<not> unhappy m k"
  shows "\<exists>ds. model_step m = Inr (m\<lparr>moved := 0, random_draws := ds, steps := steps m + 1\<rparr>)"
proof -
  let ?m0 = "m\<lparr>moved := 0\<rparr>"
  obtain ks m1 where sh: "shuffle (map fst (agents ?m0)) ?m0 = (ks, m1)"
    by (cases "shuffle (map fst (agents ?m0)) ?m0")
  with shuffle_state[of "map fst (agents ?m0)" ?m0] obtain ds where m1: "m1 = ?m0\<lparr>random_draws := ds\<rparr>"
    by auto
  have "\<not> unhappy m1 k" for k
  proof -
    have "unhappy m1 k = unhappy m k" by (rule unhappy_frame) (simp_all add: m1)
    with assms show ?thesis by blast
  qed
  then have "\<forall>k \<in> set ks. \<not> unhappy m1 k" by blast
  then have "run_agents ks m1 = Inr m1" by (rule run_agents_all_happy)
  with sh have "model_step m = Inr (m\<lparr>moved := 0, random_draws := ds, steps := steps m + 1\<rparr>)"
    by (simp add: model_step_def schedule_step_def m1)
  then show ?thesis by blast
qed

lemma run_ticks_all_happy:
  assumes "\<forall>ka \<in> set (agents m). homophily (snd ka) \<le> 0"
  shows "\<exists>m'. run_ticks n m = Inr m' \<and> grid m' = grid m \<and> agent_pos m' = agent_pos m \<and>
           empties m' = empties m \<and> agents m' = agents m \<and> steps m' = steps m + n \<and>
           (0 < n \<longrightarrow> moved m' = 0)"
  using assms
proof (induction n arbitrary: m)
  case 0
  then show ?case by simp
next
  case (Suc n)
  from Suc.prems have "\<forall>k. \<not> unhappy m k" by (simp add: nonpos_homophily_happy)
  from model_step_all_happy[OF this] obtain ds
    where st: "model_step m = Inr (m\<lparr>moved := 0, random_draws := ds, steps := steps m + 1\<rparr>)"
    by blast
  let ?m1 = "m\<lparr>moved := 0, random_draws := ds, steps := steps m + 1\<rparr>"
  from Suc.prems have "\<forall>ka \<in> set (agents ?m1). homophily (snd ka) \<le> 0" by simp
  from Suc.IH[OF this] obtain m' where m': "run_ticks n ?m1 = Inr m'" "grid m' = grid ?m1"
    "agent_pos m' = agent_pos ?m1" "empties m' = empties ?m1" "agents m' = agents ?m1"
    "steps m' = steps ?m1 + n" "0 < n \<longrightarrow> moved m' = 0"
    by blast
  have "moved m' = 0"
  proof (cases n)
    case 0
    with m'(1) show ?thesis by auto
  next
    case (Suc n')
    with m'(7) show ?thesis by simp
  qed
  with m' st show ?case by simp
qed

subsection \<open>A grid without an empty cell\<close>

lemma registered_iff: "k \<in> fst ` set (agents m) \<longleftrightarrow> (\<exists>a. map_of (agents m) k = Some a)"
  using map_of_eq_None_iff[of "agents m" k] by auto

lemma run_agents_full:
  assumes "grid_inv m" "empties m = {}"
  shows "run_agents ks m = (if \<exists>k \<in> set ks. unhappy m k then Inl (NoEmptyCells, m) else Inr m)"
proof (induction ks)
  case Nil
  show ?case by simp
next
  case (Cons k ks)
  show ?case
  proof (cases "map_of (agents m) k")
    case None
    with Cons show ?thesis by (simp add: unhappy_def)
  next
    case (Some a)
    from agent_step_cases[OF assms(1) Some] assms(2) Some Cons show ?thesis
      by (simp add: unhappy_def)
  qed
qed

lemma activated_full:
  assumes "grid_inv m" "empties m = {}" "set ks \<subseteq> fst ` set (agents m)"
  shows "activated ks m =
           takeWhile (\<lambda>k. \<not> unhappy m k) ks @ take 1 (dropWhile (\<lambda>k. \<not> unhappy m k) ks)"
  using assms(3)
proof (induction ks)
  case Nil
  show ?case by simp
next
  case (Cons k ks)
  then have "k \<in> fst ` set (agents m)" and ks: "set ks \<subseteq> fst ` set (agents m)" by simp_all
  then obtain a where a: "map_of (agents m) k = Some a" by (auto simp: registered_iff)
  from agent_step_cases[OF assms(1) a] assms(2) a Cons.IH[OF ks] show ?case
    by (simp add: unhappy_def)
qed


lemma model_step_full:
  assumes "grid_inv m" "empties m = {}" "unhappy m k"
  shows "model_step m = Inl (NoEmptyCells, snd (shuffle (map fst (agents m)) (m\<lparr>moved := 0\<rparr>)))"
proof -
  let ?m0 = "m\<lparr>moved := 0\<rparr>"
  obtain ks m1 where sh: "shuffle (map fst (agents ?m0)) ?m0 = (ks, m1)"
    by (cases "shuffle (map fst (agents ?m0)) ?m0")
  with shuffle_state[of "map fst (agents ?m0)" ?m0] obtain ds where m1: "m1 = ?m0\<lparr>random_draws := ds\<rparr>"
    by auto
  from assms(1,2) have inv1: "grid_inv m1" and e1: "empties m1 = {}" by (simp_all add: m1)
  have u: "unhappy m1 k = unhappy m k" for k by (rule unhappy_frame) (simp_all add: m1)
  from assms(3) have "k \<in> fst ` set (agents m)"
    by (auto simp: registered_iff unhappy_def split: option.splits)
  with shuffle_set[of "map fst (agents ?m0)" ?m0] sh have "k \<in> set ks" by simp
  with assms(3) u have "\<exists>k \<in> set ks. unhappy m1 k" by blast
  with run_agents_full[OF inv1 e1, of ks] have "run_agents ks m1 = Inl (NoEmptyCells, m1)" by simp
  with sh show ?thesis
    by (simp add: model_step_def schedule_step_def)
qed

subsection \<open>The example states\<close>

lemma full_grid_fields:
  "width full_grid = 2" "height full_grid = 2" "torus full_grid"
  "empties full_grid = {}"
  "agents full_grid =
        [((0, 0), example_agent (0, 0) ''triangle''),
         ((0, 1), example_agent (0, 1) ''square''),
         ((1, 0), example_agent (1, 0) ''square''),
         ((1, 1), example_agent (1, 1) ''square'')]"
  "agent_pos full_grid = (\<lambda>u. u)" "moved full_grid = 0" "steps full_grid = 0"
  "random_draws full_grid = []" "np_draws full_grid = []"
  by (simp_all add: full_grid_def)

lemma sorted_cells_4:
  "sorted_list_of_set {(0::int, 0::int), (0, 1), (1, 0), (1, 1)} = [(0, 0), (0, 1), (1, 0), (1, 1)]"
  "sorted_list_of_set {(0::int, 1::int), (1, 0), (1, 1)} = [(0, 1), (1, 0), (1, 1)]"
  "sorted_list_of_set {(1::int, 0::int), (1, 1)} = [(1, 0), (1, 1)]"
  "sorted_list_of_set {(1::int, 1::int)} = [(1, 1)]"
  by code_simp+

lemma id_upd_same: "(\<lambda>u. u)(x := x) = (\<lambda>u. u)"
  by (rule ext) simp

lemma full_grid_constructed:
  "0 < density \<Longrightarrow> SchellingModel 2 2 density (1 / 2) [] [0, 1, 1, 1] = Inr full_grid"
  by (simp add: SchellingModel_def new_model_def coord_iter_def upto.simps Let_def
      random_random_def next_draw_def np_random_choice_def SchellingAgent_def schedule_add_def
      position_agent_def random_choice_def randbelow_def place_agent_cell_def is_cell_empty_def
      full_grid_def example_agent_def sorted_cells_4 insert_Diff_if fun_upd_twist id_upd_same)

lemma full_grid_inv: "grid_inv full_grid"
  by code_simp

lemma full_grid_unhappy: "unhappy full_grid (0, 0)"
  by code_simp

lemma shuffle_loop_no_draws:
  "random_draws m = [] \<Longrightarrow> snd (shuffle_loop i xs m) = m"
proof (induction i arbitrary: xs)
  case 0
  show ?case by simp
next
  case (Suc i)
  from Suc.prems have eq: "m\<lparr>random_draws := []\<rparr> = m" by simp
  let ?ys = "xs[Suc i := xs ! 0, 0 := xs ! Suc i]"
  have "snd (shuffle_loop (Suc i) xs m) = snd (shuffle_loop i ?ys (m\<lparr>random_draws := []\<rparr>))"
    by (simp add: randbelow_def next_draw_def Suc.prems)
  also have "\<dots> = snd (shuffle_loop i ?ys m)" by (simp only: eq)
  also have "\<dots> = m" by (rule Suc.IH[OF Suc.prems])
  finally show ?case .
qed

lemma full_grid_step: "model_step full_grid = Inl (NoEmptyCells, full_grid)"
proof -
  have a: "full_grid\<lparr>moved := 0\<rparr> = full_grid" by (simp add: full_grid_def)
  have b: "snd (shuffle xs full_grid) = full_grid" for xs :: "coord list"
    unfolding shuffle_def by (rule shuffle_loop_no_draws) (simp add: full_grid_fields)
  have "model_step full_grid =
          Inl (NoEmptyCells, snd (shuffle (map fst (agents full_grid)) (full_grid\<lparr>moved := 0\<rparr>)))"
    by (rule model_step_full[OF full_grid_inv _ full_grid_unhappy]) (simp add: full_grid_fields)
  then show ?thesis by (simp only: a b)
qed

lemma town_inv: "grid_inv town"
  by code_simp

lemma lone_inv: "grid_inv lone"
  by code_simp

lemma village_inv: "grid_inv village"
  by code_simp




lemma stepped_in_order_run: "stepped_in_order ks m m' \<Longrightarrow> run_agents ks m = Inr m'"
  by (induction rule: stepped_in_order.induct) simp_all


subsection \<open>The shuffle maps draws to permutations one-to-one\<close>










section \<open>The claims\<close>

text \<open>
  C1, as amended. In a consistent state with at least one empty cell, the step of a
  registered agent relocates the agent if and only if its fraction of similar neighbours, the
  double that \<^verbatim>\<open>np.mean\<close> returns, is strictly less than its threshold. The relocation puts
  the agent into a cell that was empty, clears the cell it came from and counts one move.
  Otherwise (the fraction is at least the threshold, or it is not-a-number) the step returns
  the state as it was.
\<close>

theorem unhappy_agent_relocates:
  assumes "grid_inv m" "map_of (agents m) k = Some a" "empties m \<noteq> {}"
  shows "((\<exists>m'. agent_step m a = Inr m' \<and> agent_pos m' k \<noteq> agent_pos m k) \<longleftrightarrow>
            float_less (pct_similar_neighbors m a) (homophily a)) \<and>
         (float_less (pct_similar_neighbors m a) (homophily a) \<longrightarrow>
            (\<exists>m'. agent_step m a = Inr m' \<and> agent_pos m' k \<noteq> agent_pos m k \<and>
                  agent_pos m' k \<in> empties m \<and> grid m' (agent_pos m' k) = Some a \<and>
                  grid m' (agent_pos m k) = None \<and> moved m' = moved m + 1)) \<and>
         (\<not> float_less (pct_similar_neighbors m a) (homophily a) \<longrightarrow> agent_step m a = Inr m)"
proof -
  let ?n = "chosen_empty m"
  let ?m' = "moved_agent m a"
  note r = grid_inv_registered[OF assms(1,2)]
  from move_to_empty_inv(2)[OF assms] have n: "?n \<in> empties m" .
  from grid_inv_empty_cell[OF assms(1) n] have free: "grid m ?n = None" by simp
  with r(3) have ne: "?n \<noteq> agent_pos m k" by auto
  have f: "agent_pos ?m' k = ?n" "grid ?m' ?n = Some a" "grid ?m' (agent_pos m k) = None"
    "moved ?m' = moved m + 1"
    using ne by (simp_all add: moved_agent_def relocate_def r(1))
  have step: "agent_step m a =
      (if float_less (pct_similar_neighbors m a) (homophily a) then Inr ?m' else Inr m)"
    using agent_step_cases[OF assms(1,2)] assms(3) by simp
  show ?thesis
  proof (cases "float_less (pct_similar_neighbors m a) (homophily a)")
    case True
    with step have "agent_step m a = Inr ?m'" by simp
    with True f n ne show ?thesis by simp
  next
    case False
    with step have "agent_step m a = Inr m" by simp
    with False show ?thesis by simp
  qed
qed

text \<open>
  On the town the triangle at \<open>(1, 1)\<close> (fraction \<open>1/4\<close>, threshold \<open>1/2\<close>) relocates and the
  square at \<open>(3, 3)\<close> (fraction \<open>3/4\<close>) stays. On the village the triangle at \<open>(1, 1)\<close> has one
  similar neighbour among five: the fraction computed is the double \<^verbatim>\<open>0.2\<close>, equal to the
  threshold, and the agent stays, although \<open>1/5\<close> is less than the threshold.
\<close>

theorem unhappy_agent_relocates_witness:
  "grid_inv town \<and> empties town \<noteq> {} \<and>
   map_of (agents town) (1, 1) = Some (example_agent (1, 1) ''triangle'') \<and>
   pct_similar_neighbors town (example_agent (1, 1) ''triangle'') = Fin (1 / 4) \<and>
   homophily (example_agent (1, 1) ''triangle'') = 1 / 2 \<and>
   (\<exists>m'. agent_step town (example_agent (1, 1) ''triangle'') = Inr m' \<and>
         agent_pos m' (1, 1) \<noteq> agent_pos town (1, 1) \<and> agent_pos m' (1, 1) \<in> empties town) \<and>
   map_of (agents town) (3, 3) = Some (example_agent (3, 3) ''square'') \<and>
   pct_similar_neighbors town (example_agent (3, 3) ''square'') = Fin (3 / 4) \<and>
   homophily (example_agent (3, 3) ''square'') = 1 / 2 \<and>
   agent_step town (example_agent (3, 3) ''square'') = Inr town \<and>
   grid_inv village \<and> empties village \<noteq> {} \<and>
   map_of (agents village) (1, 1) = Some (picky_agent (1, 1) ''triangle'') \<and>
   card (similar_neighbors village (1, 1) ''triangle'') = 1 \<and>
   card (occupied_neighbors village (1, 1)) = 5 \<and>
   pct_similar_neighbors village (picky_agent (1, 1) ''triangle'') =
     Fin (3602879701896397 / 18014398509481984) \<and>
   homophily (picky_agent (1, 1) ''triangle'') = 3602879701896397 / 18014398509481984 \<and>
   (1 / 5 :: rat) < 3602879701896397 / 18014398509481984 \<and>
   agent_step village (picky_agent (1, 1) ''triangle'') = Inr village"
proof -
  have e: "empties town \<noteq> {}" by (simp add: town_def)
  have x: "map_of (agents town) (1, 1) = Some (example_agent (1, 1) ''triangle'')"
    and y: "map_of (agents town) (3, 3) = Some (example_agent (3, 3) ''square'')"
    by (simp_all add: town_def town_agents_def)
  have px: "pct_similar_neighbors town (example_agent (1, 1) ''triangle'') = Fin (1 / 4)"
    and py: "pct_similar_neighbors town (example_agent (3, 3) ''square'') = Fin (3 / 4)"
    by code_simp+
  have h: "homophily (example_agent p t) = 1 / 2" for p t by (simp add: example_agent_def)
  have lx: "float_less (pct_similar_neighbors town (example_agent (1, 1) ''triangle''))
              (homophily (example_agent (1, 1) ''triangle''))"
    and ly: "\<not> float_less (pct_similar_neighbors town (example_agent (3, 3) ''square''))
              (homophily (example_agent (3, 3) ''square''))"
    by (simp_all add: px py h)
  from unhappy_agent_relocates[OF town_inv x e] lx
  have mx: "\<exists>m'. agent_step town (example_agent (1, 1) ''triangle'') = Inr m' \<and>
         agent_pos m' (1, 1) \<noteq> agent_pos town (1, 1) \<and> agent_pos m' (1, 1) \<in> empties town"
    by blast
  from unhappy_agent_relocates[OF town_inv y e] ly
  have my: "agent_step town (example_agent (3, 3) ''square'') = Inr town"
    by blast
  have ev: "empties village \<noteq> {}" by (simp add: village_def)
  have z: "map_of (agents village) (1, 1) = Some (picky_agent (1, 1) ''triangle'')"
    by (simp add: village_def village_agents_def)
  have kz: "card (similar_neighbors village (1, 1) ''triangle'') = 1"
    and nz: "card (occupied_neighbors village (1, 1)) = 5"
    by code_simp+
  have pz: "pct_similar_neighbors village (picky_agent (1, 1) ''triangle'') =
     Fin (3602879701896397 / 18014398509481984)"
    by code_simp
  have hz: "homophily (picky_agent (1, 1) ''triangle'') = 3602879701896397 / 18014398509481984"
    by (simp add: picky_agent_def)
  have lt: "(1 / 5 :: rat) < 3602879701896397 / 18014398509481984" by simp
  have lz: "\<not> float_less (pct_similar_neighbors village (picky_agent (1, 1) ''triangle''))
              (homophily (picky_agent (1, 1) ''triangle''))"
    by (simp add: pz hz)
  from unhappy_agent_relocates[OF village_inv z ev] lz
  have mz: "agent_step village (picky_agent (1, 1) ''triangle'') = Inr village"
    by blast
  show ?thesis
    by (intro conjI) (rule town_inv e x px h mx y py my village_inv ev z kz nz pz hz lt mz)+
qed

text \<open>
  The claim C1 as it was stated fails on a grid without an empty cell: the triangle of the
  full grid has no similar neighbour, its fraction \<open>0\<close> is less than its threshold \<open>1/2\<close>, and
  its step raises and leaves the state as it was instead of relocating the agent.
\<close>

theorem unhappy_agent_stays_on_full_grid:
  "SchellingModel 2 2 1 (1 / 2) [] [0, 1, 1, 1] = Inr full_grid \<and>
   map_of (agents full_grid) (0, 0) = Some (example_agent (0, 0) ''triangle'') \<and>
   pct_similar_neighbors full_grid (example_agent (0, 0) ''triangle'') = Fin 0 \<and>
   float_less (pct_similar_neighbors full_grid (example_agent (0, 0) ''triangle''))
     (homophily (example_agent (0, 0) ''triangle'')) \<and>
   agent_step full_grid (example_agent (0, 0) ''triangle'') = Inl (NoEmptyCells, full_grid)"
proof -
  have p: "pct_similar_neighbors full_grid (example_agent (0, 0) ''triangle'') = Fin 0"
    by code_simp
  then have l: "float_less (pct_similar_neighbors full_grid (example_agent (0, 0) ''triangle''))
     (homophily (example_agent (0, 0) ''triangle''))"
    by (simp add: example_agent_def)
  have c: "SchellingModel 2 2 1 (1 / 2) [] [0, 1, 1, 1] = Inr full_grid"
    by (rule full_grid_constructed) simp
  from agent_step_full[OF l] p l c show ?thesis
    by (simp add: full_grid_fields)
qed

text \<open>
  C2, as amended. For an agent of type \<open>t\<close> at position \<open>p\<close> with at least one occupied
  neighbouring cell, the fraction that \<^verbatim>\<open>step\<close> computes is the double nearest to the
  quotient of the number of neighbouring cells holding an agent of type \<open>t\<close> by the number of
  neighbouring cells holding an agent. It differs from the quotient by at most \<open>2\<^sup>-\<^sup>5\<^sup>3\<close>, and
  it is the quotient when one, two, four or eight neighbouring cells are occupied. The
  neighbouring cells are those of the Moore neighbourhood under the torus or bounded
  policy, at most eight, each enumerated once; empty cells count neither above nor below
  the line.
\<close>

theorem similarity_fraction_rounded:
  assumes "0 < width m" "0 < height m"
    and "occupied_neighbors m (agent_pos m (unique_id a)) \<noteq> {}"
  shows "pct_similar_neighbors m a =
           Fin (float_quotient
                 (card (similar_neighbors m (agent_pos m (unique_id a)) (agent_type a)))
                 (card (occupied_neighbors m (agent_pos m (unique_id a))))) \<and>
         \<bar>float_quotient
             (card (similar_neighbors m (agent_pos m (unique_id a)) (agent_type a)))
             (card (occupied_neighbors m (agent_pos m (unique_id a)))) -
           of_nat (card (similar_neighbors m (agent_pos m (unique_id a)) (agent_type a))) /
           of_nat (card (occupied_neighbors m (agent_pos m (unique_id a))))\<bar> \<le> 1 / 2 ^ 53 \<and>
         (card (occupied_neighbors m (agent_pos m (unique_id a))) \<in> {1, 2, 4, 8} \<longrightarrow>
            pct_similar_neighbors m a =
              Fin (of_nat (card (similar_neighbors m (agent_pos m (unique_id a)) (agent_type a))) /
                   of_nat (card (occupied_neighbors m (agent_pos m (unique_id a)))))) \<and>
         card (similar_neighbors m (agent_pos m (unique_id a)) (agent_type a)) \<le>
           card (occupied_neighbors m (agent_pos m (unique_id a))) \<and>
         set (iter_neighborhood m (agent_pos m (unique_id a))) =
           moore_neighborhood m (agent_pos m (unique_id a)) \<and>
         distinct (iter_neighborhood m (agent_pos m (unique_id a))) \<and>
         length (iter_neighborhood m (agent_pos m (unique_id a))) \<le> 8"
proof -
  let ?p = "agent_pos m (unique_id a)"
  let ?ns = "iter_neighborhood m ?p"
  let ?occ = "filter (\<lambda>c. grid m c \<noteq> None) ?ns"
  let ?k = "card (similar_neighbors m ?p (agent_type a))"
  let ?n = "card (occupied_neighbors m ?p)"
  have d: "distinct ?ns" by (rule iter_neighborhood_distinct)
  have s: "set ?ns = moore_neighborhood m ?p" by (rule iter_neighborhood_moore[OF assms(1,2)])
  have ni: "neighbor_iter m ?p = map (\<lambda>c. the (grid m c)) ?occ"
    by (simp add: neighbor_iter_def iter_cell_list_contents_def is_cell_empty_def)
  have len_occ: "length ?occ = ?n"
    using length_filter_card[OF d, of "\<lambda>c. grid m c \<noteq> None"]
    by (simp only: occupied_neighbors_def s)
  have "filter (\<lambda>c. agent_type a = agent_type (the (grid m c))) ?occ =
        filter (\<lambda>c. map_option agent_type (grid m c) = Some (agent_type a)) ?ns"
    unfolding filter_filter by (rule filter_cong) auto
  then have len_sim:
    "length (filter (\<lambda>c. agent_type a = agent_type (the (grid m c))) ?occ) = ?k"
    using length_filter_card[OF d, of "\<lambda>c. map_option agent_type (grid m c) = Some (agent_type a)"]
    by (simp only: similar_neighbors_def s)
  have le: "?k \<le> ?n"
    unfolding len_sim[symmetric] len_occ[symmetric] by (rule length_filter_le)
  have "set ?occ = occupied_neighbors m ?p"
    unfolding occupied_neighbors_def s[symmetric] by auto
  with assms(3) have "set ?occ \<noteq> {}" by simp
  then have ne: "?occ \<noteq> []" by (simp only: set_empty not_False_eq_True)
  with len_occ have pos: "0 < ?n" by (cases ?occ) auto
  have "pct_similar_neighbors m a =
        np_mean (map (\<lambda>c. agent_type a = agent_type (the (grid m c))) ?occ)"
    by (simp add: pct_similar_neighbors_def ni comp_def)
  also have "\<dots> = Fin (float_quotient
                        (length (filter (\<lambda>c. agent_type a = agent_type (the (grid m c))) ?occ))
                        (length ?occ))"
    using ne by (simp add: np_mean_def count_true_map)
  finally have pct: "pct_similar_neighbors m a = Fin (float_quotient ?k ?n)"
    by (simp only: len_occ len_sim)
  have err: "\<bar>float_quotient ?k ?n - of_nat ?k / of_nat ?n\<bar> \<le> 1 / 2 ^ 53"
    by (rule float_quotient_error[OF pos])
  have exact: "float_quotient ?k ?n = of_nat ?k / of_nat ?n" if "?n \<in> {1, 2, 4, 8}"
  proof (rule float_quotient_exact[OF pos])
    from that have "int ?n dvd 2 ^ 52" by auto
    then show "int ?n dvd int ?k * 2 ^ (shift ?k ?n + 52)"
      by (simp only: power_add dvd_mult)
  qed
  from pct err exact le s d iter_neighborhood_at_most_eight[of m ?p] show ?thesis
    by (simp only: simp_thms) blast
qed

theorem similarity_fraction_rounded_witness:
  "0 < width town \<and> 0 < height town \<and>
   occupied_neighbors town (agent_pos town (unique_id (example_agent (1, 1) ''triangle''))) \<noteq> {} \<and>
   card (similar_neighbors town (1, 1) ''triangle'') = 1 \<and>
   card (occupied_neighbors town (1, 1)) = 4 \<and>
   pct_similar_neighbors town (example_agent (1, 1) ''triangle'') = Fin (1 / 4)"
proof -
  have p: "agent_pos town (unique_id (example_agent (1, 1) ''triangle'')) = (1, 1)"
    "agent_type (example_agent (1, 1) ''triangle'') = ''triangle''"
    by (simp_all add: town_def example_agent_def)
  have w: "0 < width town" "0 < height town" by (simp_all add: town_def)
  have occ: "occupied_neighbors town (1, 1) = {(0, 1), (1, 0), (1, 2), (2, 1)}" by code_simp
  have sim: "similar_neighbors town (1, 1) ''triangle'' = {(0, 1)}" by code_simp
  have ne: "occupied_neighbors town (agent_pos town (unique_id (example_agent (1, 1) ''triangle''))) \<noteq> {}"
    by (simp add: p occ)
  have c4: "card (occupied_neighbors town (1, 1)) \<in> {1, 2, 4, 8}" by (simp add: occ)
  from similarity_fraction_rounded[OF w ne, unfolded p] c4
  have "pct_similar_neighbors town (example_agent (1, 1) ''triangle'') =
          Fin (of_nat (card (similar_neighbors town (1, 1) ''triangle'')) /
               of_nat (card (occupied_neighbors town (1, 1))))"
    by blast
  then have "pct_similar_neighbors town (example_agent (1, 1) ''triangle'') = Fin (1 / 4)"
    by (simp add: occ sim)
  with w ne show ?thesis by (simp add: occ sim)
qed

text \<open>
  The claim C2 as it was stated fails where the quotient is not a double: a square of the
  full grid has three neighbours, two of them squares, and the fraction that its \<^verbatim>\<open>step\<close>
  computes is the double \<open>6004799503160661 / 2\<^sup>5\<^sup>3\<close>, not \<open>2 / 3\<close>.
\<close>

theorem similarity_fraction_not_the_quotient:
  "SchellingModel 2 2 1 (1 / 2) [] [0, 1, 1, 1] = Inr full_grid \<and>
   map_of (agents full_grid) (0, 1) = Some (example_agent (0, 1) ''square'') \<and>
   agent_pos full_grid (0, 1) = (0, 1) \<and>
   card (similar_neighbors full_grid (0, 1) ''square'') = 2 \<and>
   card (occupied_neighbors full_grid (0, 1)) = 3 \<and>
   pct_similar_neighbors full_grid (example_agent (0, 1) ''square'') =
     Fin (6004799503160661 / 9007199254740992) \<and>
   pct_similar_neighbors full_grid (example_agent (0, 1) ''square'') \<noteq> Fin (2 / 3)"
proof -
  have c: "SchellingModel 2 2 1 (1 / 2) [] [0, 1, 1, 1] = Inr full_grid"
    by (rule full_grid_constructed) simp
  have a: "map_of (agents full_grid) (0, 1) = Some (example_agent (0, 1) ''square'')"
    "agent_pos full_grid (0, 1) = (0, 1)"
    by (simp_all add: full_grid_def)
  have k: "card (similar_neighbors full_grid (0, 1) ''square'') = 2" by code_simp
  have n: "card (occupied_neighbors full_grid (0, 1)) = 3" by code_simp
  have p: "pct_similar_neighbors full_grid (example_agent (0, 1) ''square'') =
     Fin (6004799503160661 / 9007199254740992)" by code_simp
  from c a k n p show ?thesis by simp
qed

text \<open>
  C3. In every reachable state the grid is consistent: a cell holds at most one agent (a
  cell of \<open>grid\<close> holds one agent or none) and no agent stands in two cells, and \<open>empties\<close>
  is the set of the cells of the grid without the occupied ones.
\<close>

theorem reachable_grid_consistent:
  assumes "reachable m"
  shows "grid_inv m \<and>
         empties m = set (coord_iter m) - {c. grid m c \<noteq> None} \<and>
         inj_on (grid m) {c \<in> set (coord_iter m). grid m c \<noteq> None}"
proof -
  from assms have inv: "grid_inv m" by (rule reachable_grid_inv)
  then have e: "empties m = set (coord_iter m) - {c. grid m c \<noteq> None}"
    unfolding grid_inv_def by auto
  have "inj_on (grid m) {c \<in> set (coord_iter m). grid m c \<noteq> None}"
  proof (rule inj_onI)
    fix c c'
    assume c: "c \<in> {c \<in> set (coord_iter m). grid m c \<noteq> None}"
      and c': "c' \<in> {c \<in> set (coord_iter m). grid m c \<noteq> None}"
      and eq: "grid m c = grid m c'"
    from c obtain a where a: "c \<in> set (coord_iter m)" "grid m c = Some a" by auto
    from inv a have "agent_pos m (unique_id a) = c" unfolding grid_inv_def by force
    moreover from c' eq a have "c' \<in> set (coord_iter m)" "grid m c' = Some a" by auto
    with inv have "agent_pos m (unique_id a) = c'" unfolding grid_inv_def by force
    ultimately show "c = c'" by simp
  qed
  with inv e show ?thesis by simp
qed

theorem reachable_grid_consistent_witness:
  "reachable full_grid \<and> grid_inv full_grid \<and>
   empties full_grid = set (coord_iter full_grid) - {c. grid full_grid c \<noteq> None} \<and>
   inj_on (grid full_grid) {c \<in> set (coord_iter full_grid). grid full_grid c \<noteq> None}"
proof -
  have "SchellingModel 2 2 1 (1 / 2) [] [0, 1, 1, 1] = Inr full_grid"
    by (rule full_grid_constructed) simp
  then have r: "reachable full_grid" by (rule reachable.constructed)
  from reachable_grid_consistent[OF r] r show ?thesis by simp
qed

text \<open>
  C5, as amended. When an agent is unhappy and the grid has no empty cell, the exception
  of \<^verbatim>\<open>move_to_empty\<close> is caught nowhere: the step of the model raises it. No failed
  relocation is recorded (the state has no such count and \<open>moved\<close> is \<open>0\<close>), the step count
  of the scheduler is not incremented, and the grid and the positions of all agents are
  those before the step. The agents activated are the happy ones that come first in the
  order of activation and the first unhappy one; the agents after it are not activated.
\<close>

theorem full_grid_step_raises:
  assumes "grid_inv m" "empties m = {}" "unhappy m k"
  shows "\<exists>m'. model_step m = Inl (NoEmptyCells, m') \<and>
           grid m' = grid m \<and> agent_pos m' = agent_pos m \<and> empties m' = empties m \<and>
           agents m' = agents m \<and> steps m' = steps m \<and> moved m' = 0 \<and>
           activated (fst (shuffle (map fst (agents m)) (m\<lparr>moved := 0\<rparr>)))
                     (snd (shuffle (map fst (agents m)) (m\<lparr>moved := 0\<rparr>))) =
             takeWhile (\<lambda>k. \<not> unhappy m k) (fst (shuffle (map fst (agents m)) (m\<lparr>moved := 0\<rparr>))) @
             take 1 (dropWhile (\<lambda>k. \<not> unhappy m k)
                       (fst (shuffle (map fst (agents m)) (m\<lparr>moved := 0\<rparr>))))"
proof -
  let ?m0 = "m\<lparr>moved := 0\<rparr>"
  let ?ks = "fst (shuffle (map fst (agents m)) ?m0)"
  let ?m1 = "snd (shuffle (map fst (agents m)) ?m0)"
  from shuffle_state[of "map fst (agents m)" ?m0] obtain ds
    where m1: "?m1 = ?m0\<lparr>random_draws := ds\<rparr>" by blast
  from assms(1,2) have inv1: "grid_inv ?m1" and e1: "empties ?m1 = {}" by (simp_all add: m1)
  have "unhappy ?m1 k = unhappy m k" for k by (rule unhappy_frame) (simp_all add: m1)
  then have u: "unhappy ?m1 = unhappy m" by (rule ext)
  have "set ?ks \<subseteq> fst ` set (agents ?m1)"
    using shuffle_set[of "map fst (agents m)" ?m0] by (simp add: m1)
  from activated_full[OF inv1 e1 this] have act:
    "activated ?ks ?m1 = takeWhile (\<lambda>k. \<not> unhappy m k) ?ks @ take 1 (dropWhile (\<lambda>k. \<not> unhappy m k) ?ks)"
    by (simp only: u)
  have f: "grid ?m1 = grid m" "agent_pos ?m1 = agent_pos m" "empties ?m1 = empties m"
    "agents ?m1 = agents m" "steps ?m1 = steps m" "moved ?m1 = 0"
    by (simp_all add: m1)
  from model_step_full[OF assms] f act show ?thesis by blast
qed

theorem full_grid_step_raises_witness:
  "grid_inv full_grid \<and> empties full_grid = {} \<and> unhappy full_grid (0, 0) \<and>
   (\<exists>m'. model_step full_grid = Inl (NoEmptyCells, m') \<and> grid m' = grid full_grid \<and>
         agent_pos m' = agent_pos full_grid \<and> steps m' = steps full_grid \<and> moved m' = 0)"
proof -
  have e: "empties full_grid = {}" by (simp add: full_grid_fields)
  from full_grid_step_raises[OF full_grid_inv e full_grid_unhappy] full_grid_inv e full_grid_unhappy
  show ?thesis by blast
qed

text \<open>
  The claim C5 as it was stated fails: on the full grid, where the triangle is unhappy, the
  step of the model does not return. It raises the exception of \<^verbatim>\<open>move_to_empty\<close>.
\<close>

theorem full_grid_step_not_recovered:
  "SchellingModel 2 2 1 (1 / 2) [] [0, 1, 1, 1] = Inr full_grid \<and>
   empties full_grid = {} \<and> unhappy full_grid (0, 0) \<and>
   model_step full_grid = Inl (NoEmptyCells, full_grid)"
proof -
  have "SchellingModel 2 2 1 (1 / 2) [] [0, 1, 1, 1] = Inr full_grid"
    by (rule full_grid_constructed) simp
  with full_grid_unhappy full_grid_step show ?thesis by (simp add: full_grid_fields)
qed




text \<open>
  C7, as amended. The constructor does not check the density: for every density, in
  \<open>[0, 1]\<close> or not, it returns a model. A density of one or more puts an agent on every
  draw, as many agents as there are cells, and a density of zero or less creates no agent.
\<close>

theorem constructor_accepts_every_density:
  "\<exists>m. SchellingModel w h density hom rd nd = Inr m \<and>
        (1 \<le> density \<longrightarrow> length (agents m) = length (coord_iter m)) \<and>
        (density \<le> 0 \<longrightarrow> agents m = [])"
  using SchellingModel_total[of w h density hom rd nd] by blast

theorem constructor_accepts_every_density_witness:
  "(1::rat) \<le> 3 / 2 \<and>
   (\<exists>m. SchellingModel 2 2 (3 / 2) (1 / 2) [] [0, 1, 1, 1] = Inr m \<and>
        length (agents m) = length (coord_iter m)) \<and>
   (- 1 :: rat) \<le> 0 \<and>
   (\<exists>m. SchellingModel 2 2 (- 1) (1 / 2) [] [0, 1, 1, 1] = Inr m \<and> agents m = [])"
  using constructor_accepts_every_density[of 2 2 "3 / 2" "1 / 2" "[]" "[0, 1, 1, 1]"]
    constructor_accepts_every_density[of 2 2 "- 1" "1 / 2" "[]" "[0, 1, 1, 1]"]
  by simp

text \<open>
  The claim C7 as it was stated fails: with the density \<open>3/2\<close>, outside \<open>[0, 1]\<close>, the
  constructor returns the full grid of two by two cells.
\<close>

theorem density_out_of_range_accepted:
  "\<not> (0 \<le> (3 / 2 :: rat) \<and> (3 / 2 :: rat) \<le> 1) \<and>
   SchellingModel 2 2 (3 / 2) (1 / 2) [] [0, 1, 1, 1] = Inr full_grid"
proof -
  have "SchellingModel 2 2 (3 / 2) (1 / 2) [] [0, 1, 1, 1] = Inr full_grid"
    by (rule full_grid_constructed) simp
  then show ?thesis by simp
qed

text \<open>
  C8. In a model constructed with the homophily \<open>0\<close> no step relocates an agent: every step
  of the model returns, the count \<open>moved\<close> it reports is \<open>0\<close>, and the grid, the positions of
  the agents and the set of empty cells are those of the constructed model.
\<close>

theorem zero_homophily_no_relocation:
  "\<exists>m0 m'. SchellingModel w h density 0 rd nd = Inr m0 \<and> run_ticks (Suc n) m0 = Inr m' \<and>
           moved m' = 0 \<and> grid m' = grid m0 \<and> agent_pos m' = agent_pos m0 \<and>
           empties m' = empties m0"
proof -
  from SchellingModel_total[of w h density 0 rd nd] obtain m0
    where m0: "SchellingModel w h density 0 rd nd = Inr m0"
      "\<forall>ka \<in> set (agents m0). homophily (snd ka) = 0"
    by blast
  from m0(2) have "\<forall>ka \<in> set (agents m0). homophily (snd ka) \<le> 0" by simp
  from run_ticks_all_happy[OF this, of "Suc n"] m0(1) show ?thesis by auto
qed

theorem zero_homophily_no_relocation_witness:
  "\<exists>m0 m'. SchellingModel 2 2 1 0 [] [0, 1, 1, 1] = Inr m0 \<and> length (agents m0) = 4 \<and>
           run_ticks (Suc 0) m0 = Inr m' \<and> moved m' = 0 \<and> grid m' = grid m0"
proof -
  from zero_homophily_no_relocation[of 2 2 1 "[]" "[0, 1, 1, 1]" 0] obtain m0 m'
    where m: "SchellingModel 2 2 1 0 [] [0, 1, 1, 1] = Inr m0" "run_ticks (Suc 0) m0 = Inr m'"
      "moved m' = 0" "grid m' = grid m0"
    by blast
  from SchellingModel_total[of 2 2 1 0 "[]" "[0, 1, 1, 1]"] m(1)
  have "length (agents m0) = length (coord_iter m0)" "width m0 = 2" "height m0 = 2" by auto
  then have "length (agents m0) = 4" by (simp add: coord_iter_def upto.simps)
  with m show ?thesis by blast
qed

text \<open>
  C9. An agent none of whose neighbouring cells holds an agent does not relocate, whatever
  its threshold \<open>h\<close> is: the mean over the empty list of neighbours is not-a-number, the
  comparison of not-a-number with \<open>h\<close> is false, and the step returns the state as it was.
  The constructor of the model has no parameter that would choose another policy.
\<close>

theorem no_neighbor_no_relocation:
  assumes "0 < width m" "0 < height m"
    and "occupied_neighbors m (agent_pos m (unique_id a)) = {}"
  shows "pct_similar_neighbors m a = NaN \<and> \<not> float_less (pct_similar_neighbors m a) h \<and>
         agent_step m a = Inr m"
proof -
  let ?p = "agent_pos m (unique_id a)"
  have "set (filter (\<lambda>c. grid m c \<noteq> None) (iter_neighborhood m ?p)) = occupied_neighbors m ?p"
    unfolding occupied_neighbors_def iter_neighborhood_moore[OF assms(1,2), symmetric] by auto
  with assms(3) have "filter (\<lambda>c. grid m c \<noteq> None) (iter_neighborhood m ?p) = []"
    by (simp only: set_empty)
  then have "neighbor_iter m ?p = []"
    by (simp add: neighbor_iter_def iter_cell_list_contents_def is_cell_empty_def)
  then have "pct_similar_neighbors m a = NaN"
    by (simp add: pct_similar_neighbors_def np_mean_def)
  then show ?thesis by (simp add: agent_step_def)
qed

theorem no_neighbor_no_relocation_witness:
  "grid_inv lone \<and> 0 < width lone \<and> 0 < height lone \<and>
   occupied_neighbors lone (agent_pos lone (unique_id (example_agent (1, 1) ''triangle''))) = {} \<and>
   map_of (agents lone) (1, 1) = Some (example_agent (1, 1) ''triangle'') \<and>
   pct_similar_neighbors lone (example_agent (1, 1) ''triangle'') = NaN \<and>
   \<not> float_less (pct_similar_neighbors lone (example_agent (1, 1) ''triangle'')) 1 \<and>
   agent_step lone (example_agent (1, 1) ''triangle'') = Inr lone"
proof -
  have w: "0 < width lone" "0 < height lone"
    by (simp_all add: lone_def placed_def new_model_def)
  have r: "map_of (agents lone) (1, 1) = Some (example_agent (1, 1) ''triangle'')"
    by (simp add: lone_def placed_def new_model_def example_agent_def)
  have e: "occupied_neighbors lone (agent_pos lone (unique_id (example_agent (1, 1) ''triangle''))) = {}"
    by code_simp
  from no_neighbor_no_relocation[OF w e, of 1] w r e lone_inv show ?thesis by simp
qed

text \<open>
  C10. The constructor always builds the grid as a torus, and on a torus of at least three
  by three cells the neighbourhood of every position consists of exactly eight distinct
  coordinates: the Moore neighbourhood, which is the position shifted by each of the eight
  offsets and wrapped around modulo the width and the height, all of them cells of the grid.
\<close>

theorem torus_eight_neighbors:
  assumes "SchellingModel w h density hom rd nd = Inr m" "3 \<le> w" "3 \<le> h"
  shows "torus m \<and> length (iter_neighborhood m p) = 8 \<and> distinct (iter_neighborhood m p) \<and>
         set (iter_neighborhood m p) = moore_neighborhood m p \<and>
         set (iter_neighborhood m p) =
           (\<lambda>d. ((fst p + fst d) mod w, (snd p + snd d) mod h)) `
             (({-1, 0, 1} \<times> {-1, 0, 1}) - {(0, 0)}) \<and>
         set (iter_neighborhood m p) \<subseteq> set (coord_iter m)"
proof -
  from SchellingModel_total[of w h density hom rd nd] assms(1)
  have m: "torus m" "width m = w" "height m = h" by auto
  with assms(2,3) have pos: "0 < width m" "0 < height m" by simp_all
  from m assms(2,3) torus_neighbors_eight[of m p]
  have e: "length (iter_neighborhood m p) = 8 \<and> distinct (iter_neighborhood m p)" by simp
  have mo: "set (iter_neighborhood m p) = moore_neighborhood m p"
    by (rule iter_neighborhood_moore[OF pos])
  have im: "moore_neighborhood m p =
      (\<lambda>d. ((fst p + fst d) mod w, (snd p + snd d) mod h)) `
        (({-1, 0, 1} \<times> {-1, 0, 1}) - {(0, 0)})"
    using m by (simp add: moore_neighborhood_def Let_def)
  have sub: "set (iter_neighborhood m p) \<subseteq> set (coord_iter m)"
  proof
    fix q assume "q \<in> set (iter_neighborhood m p)"
    with mo im obtain d where "q = ((fst p + fst d) mod w, (snd p + snd d) mod h)" by auto
    with mod_in_bounds[OF pos] m(2,3) show "q \<in> set (coord_iter m)"
      by (simp add: coord_iter_bounds)
  qed
  from mo im have im': "set (iter_neighborhood m p) =
      (\<lambda>d. ((fst p + fst d) mod w, (snd p + snd d) mod h)) `
        (({-1, 0, 1} \<times> {-1, 0, 1}) - {(0, 0)})"
    by (rule trans)
  show ?thesis
    by (intro conjI) (rule m(1) e[THEN conjunct1] e[THEN conjunct2] mo im' sub)+
qed

theorem torus_eight_neighbors_witness:
  "SchellingModel 3 3 0 (1 / 2) [] [] = Inr (new_model 3 3 [] []) \<and> (3::int) \<le> 3 \<and>
   torus (new_model 3 3 [] []) \<and>
   length (iter_neighborhood (new_model 3 3 [] []) (0, 0)) = 8 \<and>
   distinct (iter_neighborhood (new_model 3 3 [] []) (0, 0)) \<and>
   set (iter_neighborhood (new_model 3 3 [] []) (0, 0)) =
     {(2, 2), (0, 2), (1, 2), (2, 0), (1, 0), (2, 1), (0, 1), (1, 1)} \<and>
   moore_neighborhood (new_model 3 3 [] []) (0, 0) =
     {(2, 2), (0, 2), (1, 2), (2, 0), (1, 0), (2, 1), (0, 1), (1, 1)}"
proof -
  have c: "SchellingModel 3 3 0 (1 / 2) [] [] = Inr (new_model 3 3 [] [])"
    by (simp add: SchellingModel_def new_model_def coord_iter_def upto.simps Let_def
        random_random_def next_draw_def)
  have i: "(\<lambda>d :: coord. ((fst (0 :: int, 0 :: int) + fst d) mod 3, (snd (0 :: int, 0 :: int) + snd d) mod 3)) `
             (({-1, 0, 1} \<times> {-1, 0, 1}) - {(0, 0)}) =
           {(2, 2), (0, 2), (1, 2), (2, 0), (1, 0), (2, 1), (0, 1), (1, 1 :: int)}"
    by code_simp
  have le: "(3::int) \<le> 3" by simp
  note t = torus_eight_neighbors[OF c le le, of "(0, 0)", unfolded i]
  note t1 = t[THEN conjunct1]
  note t2 = t[THEN conjunct2, THEN conjunct1]
  note t3 = t[THEN conjunct2, THEN conjunct2, THEN conjunct1]
  note t4 = t[THEN conjunct2, THEN conjunct2, THEN conjunct2, THEN conjunct1]
  note t5 = t[THEN conjunct2, THEN conjunct2, THEN conjunct2, THEN conjunct2, THEN conjunct1]
  from t4[symmetric] t5 have mo: "moore_neighborhood (new_model 3 3 [] []) (0, 0) =
     {(2, 2), (0, 2), (1, 2), (2, 0), (1, 0), (2, 1), (0, 1), (1, 1)}"
    by (rule trans)
  show ?thesis
    by (intro conjI) (rule c le t1 t2 t3 t5 mo)+
qed

end
